theory Spec2Isabelle
  imports Main "HOL-Library.Word"
begin

unbundle bit_operations_syntax

section \<open>Machine integers, Win32 constants and the log\<close>

text \<open>
  \<^verbatim>\<open>DWORD\<close> is an unsigned 32-bit integer: arithmetic wraps around and every comparison
  is unsigned.  The numeric constants below are the values the Windows SDK headers give
  to the names the source uses.
\<close>

type_synonym DWORD = "32 word"

definition ERROR_SUCCESS :: DWORD where "ERROR_SUCCESS = 0"
definition ERROR_IO_INCOMPLETE :: DWORD where "ERROR_IO_INCOMPLETE = 996"
definition ERROR_IO_PENDING :: DWORD where "ERROR_IO_PENDING = 997"

text \<open>
  A call of \<^verbatim>\<open>logInfo\<close>, \<^verbatim>\<open>logDebug\<close> or \<^verbatim>\<open>logTrace\<close> is recorded as its level, its format
  string and its arguments.  \<^verbatim>\<open>logLevel\<close> is the constant \<^verbatim>\<open>TRACE\<close>; the time stamp is
  not modelled.  Two arguments stand for text the model does not hold:
  \<open>ArgErrorMessage err\<close> for \<^verbatim>\<open>errorMessage(err)\<close>, and \<open>ArgBytes at n\<close> for
  \<^verbatim>\<open>asString(p, n)\<close> with \<open>p\<close> the address of slot \<open>at\<close> of a buffer.
\<close>

datatype log_arg = ArgD DWORD | ArgS string | ArgErrorMessage DWORD | ArgBytes DWORD DWORD

type_synonym log_entry = "nat \<times> string \<times> log_arg list"

definition INFO :: nat where "INFO = 1"
definition DEBUG :: nat where "DEBUG = 2"
definition TRACE :: nat where "TRACE = 3"
definition logLevel :: nat where "logLevel = TRACE"

definition logInfo :: "string \<Rightarrow> log_arg list \<Rightarrow> log_entry list" where
  "logInfo format args = (if logLevel \<ge> INFO then [(INFO, format, args)] else [])"

definition logDebug :: "string \<Rightarrow> log_arg list \<Rightarrow> log_entry list" where
  "logDebug format args = (if logLevel \<ge> DEBUG then [(DEBUG, format, args)] else [])"

definition logTrace :: "string \<Rightarrow> log_arg list \<Rightarrow> log_entry list" where
  "logTrace format args = (if logLevel \<ge> TRACE then [(TRACE, format, args)] else [])"

definition logError :: "string \<Rightarrow> DWORD \<Rightarrow> log_entry list" where
  "logError from err =
     (if err = ERROR_SUCCESS then logTrace ''%s success'' [ArgS from]
      else if err = ERROR_IO_PENDING then logDebug ''%s pending'' [ArgS from]
      else logInfo ''%s error %d %s'' [ArgS from, ArgD err, ArgErrorMessage err])"

definition logIOResult :: "string \<Rightarrow> DWORD \<Rightarrow> DWORD \<Rightarrow> log_entry list" where
  "logIOResult from err count =
     (if err = ERROR_SUCCESS then logTrace ''%s success %d'' [ArgS from, ArgD count]
      else if err = ERROR_IO_PENDING then logTrace ''%s pending %d'' [ArgS from, ArgD count]
      else if err = ERROR_IO_INCOMPLETE then logInfo ''%s incomplete %d'' [ArgS from, ArgD count]
      else logError from err)"

section \<open>RingBuffer\<close>

text \<open>
  The class \<^verbatim>\<open>RingBuffer\<close>: the size of the backing array, the two indices and the two
  manual-reset events, \<^verbatim>\<open>notFull\<close> (created signalled) and \<^verbatim>\<open>notEmpty\<close> (created
  unsignalled).  An event is its state, a boolean.  The bytes held in the array do not
  influence any index or event and are left out.
\<close>

record RingBuffer =
  bufferSize :: DWORD
  dataIndex :: DWORD
  spaceIndex :: DWORD
  notFull :: bool
  notEmpty :: bool

text \<open>
  \<^verbatim>\<open>SetEvent\<close> and \<^verbatim>\<open>ResetEvent\<close> return the success flag and the new state of the event.
  On the valid handles the program creates, both succeed; so the branches of the source
  that store \<^verbatim>\<open>GetLastError()\<close> after a failed call are written out below but never
  taken.
\<close>

definition SetEvent :: "bool \<Rightarrow> bool \<times> bool" where
  "SetEvent e = (True, True)"

definition ResetEvent :: "bool \<Rightarrow> bool \<times> bool" where
  "ResetEvent e = (True, False)"

text \<open>The last-error code a failed event call would leave behind (never read, see above).\<close>

definition GetLastError_event :: DWORD where
  "GetLastError_event = 6"

text \<open>The constructor: \<^verbatim>\<open>bufferSize = capacity + 1\<close>, both indices 0.\<close>

definition newRingBuffer :: "int \<Rightarrow> RingBuffer" where
  "newRingBuffer capacity =
     \<lparr> bufferSize = word_of_int (capacity + 1), dataIndex = 0, spaceIndex = 0,
       notFull = True, notEmpty = False \<rparr>"

definition findData :: "RingBuffer \<Rightarrow> DWORD" where
  "findData rb =
     (if spaceIndex rb \<ge> dataIndex rb then spaceIndex rb - dataIndex rb
      else bufferSize rb - dataIndex rb)"

definition findSpace :: "RingBuffer \<Rightarrow> DWORD" where
  "findSpace rb =
     (if spaceIndex rb \<ge> dataIndex rb
      then bufferSize rb - spaceIndex rb - (if dataIndex rb = 0 then 1 else 0)
      else dataIndex rb - spaceIndex rb - 1)"

text \<open>\<^verbatim>\<open>hasData()\<close> and \<^verbatim>\<open>hasSpace()\<close> read under the lock; \<^verbatim>\<open>data()\<close> and \<^verbatim>\<open>space()\<close>
  return the address of the slot at the index, here the index itself.\<close>

definition hasData :: "RingBuffer \<Rightarrow> DWORD" where
  "hasData rb = findData rb"

definition hasSpace :: "RingBuffer \<Rightarrow> DWORD" where
  "hasSpace rb = findSpace rb"

definition data :: "RingBuffer \<Rightarrow> DWORD" where
  "data rb = dataIndex rb"

definition space :: "RingBuffer \<Rightarrow> DWORD" where
  "space rb = spaceIndex rb"

text \<open>
  \<^verbatim>\<open>addData(count)\<close>.  The result is the buffer after the call and the log calls made, in
  order: the overrun message inside the critical section, the two error messages after it.
\<close>

definition addData :: "DWORD \<Rightarrow> RingBuffer \<Rightarrow> RingBuffer \<times> log_entry list" where
  "addData count rb =
     (if count > 0 then
        let resetError0 = ERROR_SUCCESS;
            setError0 = ERROR_SUCCESS;
            space0 = findSpace rb;
            overrun = (if count > space0
                       then logInfo ''buffer overrun %d > %d'' [ArgD count, ArgD space0] else []);
            toAdd = (if count > space0 then space0 else count);
            rb1 = rb\<lparr>spaceIndex := spaceIndex rb + toAdd\<rparr>;
            rb2 = (if spaceIndex rb1 = bufferSize rb1 then rb1\<lparr>spaceIndex := 0\<rparr> else rb1);
            (setOk, ne) = SetEvent (notEmpty rb2);
            rb3 = rb2\<lparr>notEmpty := ne\<rparr>;
            setError = (if \<not> setOk then GetLastError_event else setError0);
            (resetOk, nf) = (if findSpace rb3 \<le> 0 then ResetEvent (notFull rb3)
                             else (True, notFull rb3));
            rb4 = rb3\<lparr>notFull := nf\<rparr>;
            resetError = (if findSpace rb3 \<le> 0 \<and> \<not> resetOk then GetLastError_event
                          else resetError0)
        in (rb4,
            overrun
            @ (if resetError \<noteq> ERROR_SUCCESS
               then logError ''ResetEvent RingBuffer.notFull'' resetError else [])
            @ (if setError \<noteq> ERROR_SUCCESS
               then logError ''SetEvent RingBuffer.notEmpty'' setError else []))
      else (rb, []))"

text \<open>\<^verbatim>\<open>removeData(count)\<close>, the mirror image on \<^verbatim>\<open>dataIndex\<close>.\<close>

definition removeData :: "DWORD \<Rightarrow> RingBuffer \<Rightarrow> RingBuffer \<times> log_entry list" where
  "removeData count rb =
     (if count > 0 then
        let resetError0 = ERROR_SUCCESS;
            setError0 = ERROR_SUCCESS;
            data0 = findData rb;
            underrun = (if count > data0
                        then logInfo ''buffer underrun %d > %d'' [ArgD count, ArgD data0] else []);
            toRemove = (if count > data0 then data0 else count);
            rb1 = rb\<lparr>dataIndex := dataIndex rb + toRemove\<rparr>;
            rb2 = (if dataIndex rb1 = bufferSize rb1 then rb1\<lparr>dataIndex := 0\<rparr> else rb1);
            (setOk, nf) = SetEvent (notFull rb2);
            rb3 = rb2\<lparr>notFull := nf\<rparr>;
            setError = (if \<not> setOk then GetLastError_event else setError0);
            (resetOk, ne) = (if findData rb3 \<le> 0 then ResetEvent (notEmpty rb3)
                             else (True, notEmpty rb3));
            rb4 = rb3\<lparr>notEmpty := ne\<rparr>;
            resetError = (if findData rb3 \<le> 0 \<and> \<not> resetOk then GetLastError_event
                          else resetError0)
        in (rb4,
            underrun
            @ (if resetError \<noteq> ERROR_SUCCESS
               then logError ''ResetEvent RingBuffer.notEmpty'' resetError else [])
            @ (if setError \<noteq> ERROR_SUCCESS
               then logError ''SetEvent RingBuffer.notFull'' setError else []))
      else (rb, []))"

text \<open>The number of bytes a call with argument \<open>count\<close> moves when \<open>avail\<close> are available.\<close>

definition clampCount :: "DWORD \<Rightarrow> DWORD \<Rightarrow> DWORD" where
  "clampCount count avail = (if count > avail then avail else count)"

text \<open>
  The specification's vocabulary.  The occupancy of a queue is
  \<open>(tail - head) mod (C + 1)\<close>, with \<open>head = dataIndex\<close>, \<open>tail = spaceIndex\<close> and
  \<open>C + 1 = bufferSize\<close>; the capacity is \<open>bufferSize - 1\<close>.  A buffer is well formed when
  both indices lie inside the backing array.
\<close>

definition occupancy :: "RingBuffer \<Rightarrow> int" where
  "occupancy rb = (uint (spaceIndex rb) - uint (dataIndex rb)) mod uint (bufferSize rb)"

definition capacity :: "RingBuffer \<Rightarrow> int" where
  "capacity rb = uint (bufferSize rb) - 1"

definition wellFormed :: "RingBuffer \<Rightarrow> bool" where
  "wellFormed rb \<longleftrightarrow> dataIndex rb < bufferSize rb \<and> spaceIndex rb < bufferSize rb"

text \<open>
  The states of one queue that its own operations and the two event resets of the
  coordinator (\<^verbatim>\<open>comRx\<close> resets \<^verbatim>\<open>notFull\<close>, \<^verbatim>\<open>comTx\<close> resets \<^verbatim>\<open>notEmpty\<close>) can reach from
  a freshly constructed buffer of capacity \<open>C\<close>.
\<close>

inductive reachable :: "int \<Rightarrow> RingBuffer \<Rightarrow> bool" for C :: int where
  constructed: "reachable C (newRingBuffer C)"
| added: "reachable C rb \<Longrightarrow> reachable C (fst (addData n rb))"
| removed: "reachable C rb \<Longrightarrow> reachable C (fst (removeData n rb))"
| notFullReset: "reachable C rb \<Longrightarrow> reachable C (rb\<lparr>notFull := snd (ResetEvent (notFull rb))\<rparr>)"
| notEmptyReset: "reachable C rb \<Longrightarrow> reachable C (rb\<lparr>notEmpty := snd (ResetEvent (notEmpty rb))\<rparr>)"

text \<open>The two signals agree with the occupancy.\<close>

definition signalsConsistent :: "RingBuffer \<Rightarrow> bool" where
  "signalsConsistent rb \<longleftrightarrow>
     (notEmpty rb \<longleftrightarrow> occupancy rb > 0) \<and> (notFull rb \<longleftrightarrow> occupancy rb < capacity rb)"

section \<open>The session: globals of the program\<close>

text \<open>
  The global variables, the event of each \<^verbatim>\<open>OVERLAPPED\<close> structure, the lines written
  to the log, the local \<^verbatim>\<open>exitCode\<close> of \<^verbatim>\<open>main\<close>, and for each of the two threads its exit
  code once its function has returned.
\<close>

record Session =
  rxBuffer :: RingBuffer
  txBuffer :: RingBuffer
  comEventMask :: DWORD
  comEventError :: DWORD
  comRxError :: DWORD
  comTxError :: DWORD
  comDone :: bool
  stdinDone :: bool
  stdoutDone :: bool
  comEventOverlapped_hEvent :: bool
  comRxOverlapped_hEvent :: bool
  comTxOverlapped_hEvent :: bool
  logFile :: "log_entry list"
  exitCode :: int
  stdinReaderExit :: "DWORD option"
  stdoutWriterExit :: "DWORD option"

definition initialSession :: Session where
  "initialSession =
     \<lparr> rxBuffer = newRingBuffer 128, txBuffer = newRingBuffer 128,
       comEventMask = 0, comEventError = ERROR_SUCCESS,
       comRxError = ERROR_SUCCESS, comTxError = ERROR_SUCCESS,
       comDone = False, stdinDone = False, stdoutDone = False,
       comEventOverlapped_hEvent = True, comRxOverlapped_hEvent = False,
       comTxOverlapped_hEvent = False,
       logFile = [], exitCode = 0, stdinReaderExit = None, stdoutWriterExit = None \<rparr>"

definition writeLog :: "log_entry list \<Rightarrow> Session \<Rightarrow> Session" where
  "writeLog entries st = st\<lparr>logFile := logFile st @ entries\<rparr>"

text \<open>\<^verbatim>\<open>logLastError(from)\<close> after a failed event call.\<close>

definition logLastError_event :: "string \<Rightarrow> log_entry list" where
  "logLastError_event from = logError from GetLastError_event"

text \<open>The labels \<^verbatim>\<open>case ERROR_IO_INCOMPLETE: case ERROR_IO_PENDING:\<close> of the switches.\<close>

definition ioPending :: "DWORD \<Rightarrow> bool" where
  "ioPending err \<longleftrightarrow> err = ERROR_IO_INCOMPLETE \<or> err = ERROR_IO_PENDING"

section \<open>The two threads\<close>

text \<open>
  One pass through the body of a \<^verbatim>\<open>while (TRUE)\<close> loop of a thread either reaches the end
  of the body (\<open>Next\<close>), returns from the thread function with a code (\<open>Return\<close>), or
  waits on an event that is not signalled (\<open>Blocked\<close>).
\<close>

datatype thread_flow = Next Session | Blocked Session | Return DWORD Session

text \<open>
  \<^verbatim>\<open>stdinReader\<close>: \<open>r\<close> is the \<^verbatim>\<open>int\<close> that \<^verbatim>\<open>_read\<close> returns and \<open>errno\<close> the value of \<^verbatim>\<open>errno\<close>
  after it.  The result is stored in the \<^verbatim>\<open>DWORD wasRead\<close>, so the conversion is modulo
  \<open>2^32\<close> and \<^verbatim>\<open>wasRead < 0\<close> compares unsigned values.  \<^verbatim>\<open>perror\<close> writes to the standard
  error stream, not through the log functions, and is not recorded.
\<close>

definition stdinReader_iteration :: "int \<Rightarrow> DWORD \<Rightarrow> Session \<Rightarrow> thread_flow" where
  "stdinReader_iteration r errno st =
     (let toRead = hasSpace (txBuffer st) in
      if toRead \<le> 0 then (if notFull (txBuffer st) then Next st else Blocked st)
      else
        let wasRead = (word_of_int r :: DWORD) in
        if wasRead < 0 then Return errno (st\<lparr>stdinDone := True\<rparr>)
        else
          let st1 = writeLog (logDebug ''stdin read %d %s''
                                [ArgD wasRead, ArgBytes (space (txBuffer st)) wasRead]) st;
              (rb, entries) = addData wasRead (txBuffer st1);
              st2 = writeLog entries (st1\<lparr>txBuffer := rb\<rparr>)
          in if wasRead = 0 then Return 0 (st2\<lparr>stdinDone := True\<rparr>) else Next st2)"

text \<open>\<^verbatim>\<open>stdoutWriter\<close>: \<open>r\<close> is the \<^verbatim>\<open>int\<close> that \<^verbatim>\<open>_write\<close> returns.\<close>

definition stdoutWriter_iteration :: "int \<Rightarrow> DWORD \<Rightarrow> Session \<Rightarrow> thread_flow" where
  "stdoutWriter_iteration r errno st =
     (let toWrite = hasData (rxBuffer st) in
      if toWrite \<le> 0 then (if notEmpty (rxBuffer st) then Next st else Blocked st)
      else
        let wasWritten = (word_of_int r :: DWORD) in
        if wasWritten < 0 then Return errno (st\<lparr>stdoutDone := True\<rparr>)
        else
          let st1 = writeLog (logDebug ''stdout wrote %d %s''
                                [ArgD wasWritten, ArgBytes (data (rxBuffer st)) wasWritten]) st;
              (rb, entries) = removeData wasWritten (rxBuffer st1);
              st2 = writeLog entries (st1\<lparr>rxBuffer := rb\<rparr>)
          in Next st2)"

text \<open>
  The loop of a thread, run on the results of its successive blocking calls.  The result
  \<open>Next st\<close> says that the thread is still inside its loop when the given results are used
  up.
\<close>

fun stdinReader :: "(int \<times> DWORD) list \<Rightarrow> Session \<Rightarrow> thread_flow" where
  "stdinReader [] st = Next st"
| "stdinReader ((r, errno) # rs) st =
     (case stdinReader_iteration r errno st of
        Next st' \<Rightarrow> stdinReader rs st'
      | Blocked st' \<Rightarrow> Blocked st'
      | Return code st' \<Rightarrow> Return code st')"

fun stdoutWriter :: "(int \<times> DWORD) list \<Rightarrow> Session \<Rightarrow> thread_flow" where
  "stdoutWriter [] st = Next st"
| "stdoutWriter ((r, errno) # rs) st =
     (case stdoutWriter_iteration r errno st of
        Next st' \<Rightarrow> stdoutWriter rs st'
      | Blocked st' \<Rightarrow> Blocked st'
      | Return code st' \<Rightarrow> Return code st')"

section \<open>The device channel and the coordinator\<close>

text \<open>
  More values of the Windows SDK: the results of \<^verbatim>\<open>WaitForMultipleObjects\<close> and the bits of
  a communications event mask.
\<close>

definition WAIT_OBJECT_0 :: DWORD where "WAIT_OBJECT_0 = 0"
definition WAIT_TIMEOUT :: DWORD where "WAIT_TIMEOUT = 258"
definition WAIT_FAILED :: DWORD where "WAIT_FAILED = 0xFFFFFFFF"

definition EV_RXCHAR :: DWORD where "EV_RXCHAR = 0x0001"
definition EV_RXFLAG :: DWORD where "EV_RXFLAG = 0x0002"
definition EV_TXEMPTY :: DWORD where "EV_TXEMPTY = 0x0004"
definition EV_CTS :: DWORD where "EV_CTS = 0x0008"
definition EV_DSR :: DWORD where "EV_DSR = 0x0010"
definition EV_RLSD :: DWORD where "EV_RLSD = 0x0020"
definition EV_BREAK :: DWORD where "EV_BREAK = 0x0040"
definition EV_ERR :: DWORD where "EV_ERR = 0x0080"
definition EV_RING :: DWORD where "EV_RING = 0x0100"

text \<open>
  What the device answers is an input of the model.  One \<open>io_reply\<close> serves one pass
  through the loop of \<^verbatim>\<open>comRx\<close> or \<^verbatim>\<open>comTx\<close>: \<open>issued\<close> is the value of
  \<^verbatim>\<open>ReadFile(...) ? ERROR_SUCCESS : GetLastError()\<close> (or of the same expression with
  \<^verbatim>\<open>WriteFile\<close>) if the pass evaluates it, \<open>polled\<close> the value of
  \<^verbatim>\<open>GetOverlappedResult(...) ? ERROR_SUCCESS : GetLastError()\<close> if the pass evaluates it,
  and \<open>transferred\<close> the byte count that call stores.  One \<open>event_reply\<close> serves one pass
  through the loop of \<^verbatim>\<open>comEvent\<close> in the same way; \<open>eventMask\<close> is what the device has
  stored in \<^verbatim>\<open>comEventMask\<close> when the wait is seen to have completed.
\<close>

record io_reply =
  issued :: DWORD
  polled :: DWORD
  transferred :: DWORD

record event_reply =
  waitIssued :: DWORD
  waitPolled :: DWORD
  eventMask :: DWORD

record Env =
  eventReplies :: "event_reply list"
  rxReplies :: "io_reply list"
  txReplies :: "io_reply list"

text \<open>A pass through the body of a \<^verbatim>\<open>while (!comDone)\<close> loop reaches the end of the body
  (\<open>Again\<close>) or returns from the function (\<open>Leave\<close>).\<close>

datatype loop_flow = Again Session | Leave Session

text \<open>The body of the loop of \<^verbatim>\<open>comRx\<close>.\<close>

definition comRx_iteration :: "io_reply \<Rightarrow> Session \<Rightarrow> loop_flow" where
  "comRx_iteration r st =
     (let buffer = space (rxBuffer st);
          justRead = \<not> ioPending (comRxError st);
          toRead = hasSpace (rxBuffer st)
      in
      if justRead \<and> toRead \<le> 0 then Leave st
      else
        let st1 = (if justRead
                   then writeLog (logIOResult ''comRx ReadFile'' (issued r) toRead)
                          (st\<lparr>comRxError := issued r\<rparr>)
                   else st)
        in
        if ioPending (comRxError st1) \<and> justRead then Leave st1
        else if ioPending (comRxError st1) \<or> comRxError st1 = ERROR_SUCCESS then
          let st2 = st1\<lparr>comRxError := polled r\<rparr>;
              wasRead = transferred r
          in
          if ioPending (comRxError st2) then Leave st2
          else if comRxError st2 = ERROR_SUCCESS then
            let st3 = writeLog (logDebug ''comRx read %d %s''
                                  [ArgD wasRead, ArgBytes buffer wasRead]) st2;
                (resetOk, ev) = ResetEvent (comRxOverlapped_hEvent st3);
                st4 = writeLog (if \<not> resetOk then logLastError_event ''comRx ResetEvent'' else [])
                        (st3\<lparr>comRxOverlapped_hEvent := ev\<rparr>)
            in
            if wasRead \<le> 0 then Leave st4
            else
              let (rb, entries) = addData wasRead (rxBuffer st4)
              in Again (writeLog entries (st4\<lparr>rxBuffer := rb\<rparr>))
          else
            Again ((writeLog (logError ''comRx GetOverlappedResult'' (comRxError st2)) st2)
                     \<lparr>comDone := True\<rparr>)
        else
          Again ((writeLog (logError ''comRx ReadFile'' (comRxError st1)) st1)
                   \<lparr>comDone := True\<rparr>))"

text \<open>
  The loop, run on the replies still to come.  It gives the session at the return and the
  replies left over, or \<open>None\<close> when the replies run out before the function returns.
\<close>

fun comRx_loop :: "io_reply list \<Rightarrow> Session \<Rightarrow> (Session \<times> io_reply list) option" where
  "comRx_loop [] st = (if comDone st then Some (st, []) else None)"
| "comRx_loop (r # rs) st =
     (if comDone st then Some (st, r # rs)
      else case comRx_iteration r st of
             Leave st' \<Rightarrow> Some (st', rs)
           | Again st' \<Rightarrow> comRx_loop rs st')"

definition comRx :: "Env \<Rightarrow> Session \<Rightarrow> (Session \<times> Env) option" where
  "comRx env st =
     (let (resetOk, ev) = ResetEvent (notFull (rxBuffer st));
          st0 = writeLog (if \<not> resetOk then logLastError_event ''ResetEvent(rxBuffer.notFull)''
                          else [])
                  (st\<lparr>rxBuffer := (rxBuffer st)\<lparr>notFull := ev\<rparr>\<rparr>)
      in case comRx_loop (rxReplies env) st0 of
           None \<Rightarrow> None
         | Some (st', rs) \<Rightarrow> Some (st', env\<lparr>rxReplies := rs\<rparr>))"

text \<open>The body of the loop of \<^verbatim>\<open>comTx\<close>.\<close>

definition comTx_iteration :: "io_reply \<Rightarrow> Session \<Rightarrow> loop_flow" where
  "comTx_iteration r st =
     (let buffer = data (txBuffer st);
          justWrote = \<not> ioPending (comTxError st);
          toWrite = hasData (txBuffer st)
      in
      if justWrote \<and> toWrite \<le> 0 then Leave st
      else
        let st1 = (if justWrote
                   then writeLog (logIOResult ''comTx WriteFile'' (issued r) toWrite)
                          (st\<lparr>comTxError := issued r\<rparr>)
                   else st)
        in
        if ioPending (comTxError st1) \<and> justWrote then Leave st1
        else if ioPending (comTxError st1) \<or> comTxError st1 = ERROR_SUCCESS then
          let wasWritten = transferred r;
              st2 = writeLog (logIOResult ''comTx GetOverlappedResult'' (polled r) wasWritten)
                      (st1\<lparr>comTxError := polled r\<rparr>)
          in
          if ioPending (comTxError st2) then Leave st2
          else if comTxError st2 = ERROR_SUCCESS then
            let st3 = writeLog (logDebug ''comTx wrote %d %s''
                                  [ArgD wasWritten, ArgBytes buffer wasWritten]) st2;
                (resetOk, ev) = ResetEvent (comTxOverlapped_hEvent st3);
                st4 = writeLog (if \<not> resetOk then logLastError_event ''comTx ResetEvent'' else [])
                        (st3\<lparr>comTxOverlapped_hEvent := ev\<rparr>)
            in
            if wasWritten \<le> 0 then Leave st4
            else
              let (rb, entries) = removeData wasWritten (txBuffer st4)
              in Again (writeLog entries (st4\<lparr>txBuffer := rb\<rparr>))
          else
            Again ((writeLog (logError ''comTx GetOverlappedResult'' (comTxError st2)) st2)
                     \<lparr>comDone := True\<rparr>)
        else
          Again ((writeLog (logError ''comTx WriteFile'' (comTxError st1)) st1)
                   \<lparr>comDone := True\<rparr>))"

fun comTx_loop :: "io_reply list \<Rightarrow> Session \<Rightarrow> (Session \<times> io_reply list) option" where
  "comTx_loop [] st = (if comDone st then Some (st, []) else None)"
| "comTx_loop (r # rs) st =
     (if comDone st then Some (st, r # rs)
      else case comTx_iteration r st of
             Leave st' \<Rightarrow> Some (st', rs)
           | Again st' \<Rightarrow> comTx_loop rs st')"

definition comTx :: "Env \<Rightarrow> Session \<Rightarrow> (Session \<times> Env) option" where
  "comTx env st =
     (let (resetOk, ev) = ResetEvent (notEmpty (txBuffer st));
          st0 = writeLog (if \<not> resetOk then logLastError_event ''ResetEvent(txBuffer.notEmpty)''
                          else [])
                  (st\<lparr>txBuffer := (txBuffer st)\<lparr>notEmpty := ev\<rparr>\<rparr>)
      in case comTx_loop (txReplies env) st0 of
           None \<Rightarrow> None
         | Some (st', rs) \<Rightarrow> Some (st', env\<lparr>txReplies := rs\<rparr>))"

text \<open>
  \<^verbatim>\<open>comEvent\<close>.  One pass through its loop takes one \<open>event_reply\<close> and, when the wait has
  completed, calls \<^verbatim>\<open>comRx\<close> and \<^verbatim>\<open>comTx\<close> as the mask says.
\<close>

definition eventFlag :: "DWORD \<Rightarrow> DWORD \<Rightarrow> string \<Rightarrow> log_arg" where
  "eventFlag m b name = ArgS (if m AND b \<noteq> 0 then name else '''')"

definition comEvent_trace :: "DWORD \<Rightarrow> log_entry list" where
  "comEvent_trace m =
     (if logLevel \<ge> TRACE
      then logTrace ''comEvent%s%s%s%s%s%s%s%s%s''
             [eventFlag m EV_RXCHAR '' RXCHAR'', eventFlag m EV_TXEMPTY '' TXEMPTY'',
              eventFlag m EV_CTS '' CTS'', eventFlag m EV_DSR '' DSR'',
              eventFlag m EV_RLSD '' RLSD'', eventFlag m EV_BREAK '' BREAK'',
              eventFlag m EV_RXFLAG '' RXFLAG'', eventFlag m EV_ERR '' ERR'',
              eventFlag m EV_RING '' RING'']
      else [])"

text \<open>The three switches of the body, up to the calls of \<^verbatim>\<open>comRx\<close> and \<^verbatim>\<open>comTx\<close>:
  \<open>Again\<close> here means that the wait has completed and the two calls come next.\<close>

definition comEvent_switches :: "event_reply \<Rightarrow> Session \<Rightarrow> loop_flow" where
  "comEvent_switches r st =
     (let st1 = (if ioPending (comEventError st) then st
                 else writeLog (logError ''comEvent WaitCommEvent'' (waitIssued r))
                        (st\<lparr>comEventError := waitIssued r,
                            comEventMask := (if waitIssued r = ERROR_SUCCESS then eventMask r
                                             else comEventMask st)\<rparr>))
      in
      if \<not> ioPending (comEventError st1) \<and> comEventError st1 \<noteq> ERROR_SUCCESS then
        Leave ((writeLog (logError ''comEvent WaitCommEvent'' (comEventError st1)) st1)
                 \<lparr>comDone := True\<rparr>)
      else
        let st2 = (if ioPending (comEventError st1)
                   then st1\<lparr>comEventError := waitPolled r,
                            comEventMask := (if waitPolled r = ERROR_SUCCESS then eventMask r
                                             else comEventMask st1)\<rparr>
                   else st1)
        in
        if ioPending (comEventError st2) then Leave st2
        else if comEventError st2 = ERROR_SUCCESS then
          let (resetOk, ev) = ResetEvent (comEventOverlapped_hEvent st2);
              st3 = writeLog (if \<not> resetOk then logLastError_event ''comEvent ResetEvent'' else [])
                      (st2\<lparr>comEventOverlapped_hEvent := ev\<rparr>)
          in Again (writeLog (comEvent_trace (comEventMask st3)) st3)
        else
          Leave ((writeLog (logError ''comEvent GetOverlappedResult'' (comEventError st2)) st2)
                   \<lparr>comDone := True\<rparr>))"

fun comEvent_loop ::
  "event_reply list \<Rightarrow> Env \<Rightarrow> Session \<Rightarrow> (Session \<times> event_reply list \<times> Env) option" where
  "comEvent_loop [] env st = (if comDone st then Some (st, [], env) else None)"
| "comEvent_loop (r # rs) env st =
     (if comDone st then Some (st, r # rs, env)
      else case comEvent_switches r st of
             Leave st' \<Rightarrow> Some (st', rs, env)
           | Again st1 \<Rightarrow>
               (case (if comEventMask st1 AND EV_RXCHAR \<noteq> 0 then comRx env st1
                      else Some (st1, env)) of
                  None \<Rightarrow> None
                | Some (st2, env2) \<Rightarrow>
                    (case (if comEventMask st2 AND EV_TXEMPTY \<noteq> 0 then comTx env2 st2
                           else Some (st2, env2)) of
                       None \<Rightarrow> None
                     | Some (st3, env3) \<Rightarrow> comEvent_loop rs env3 st3)))"

definition comEvent :: "Env \<Rightarrow> Session \<Rightarrow> (Session \<times> Env) option" where
  "comEvent env st =
     (case comEvent_loop (eventReplies env) env st of
        None \<Rightarrow> None
      | Some (st', rs, env') \<Rightarrow> Some (st', env'\<lparr>eventReplies := rs\<rparr>))"

section \<open>main\<close>

text \<open>
  \<^verbatim>\<open>setComm\<close>.  Each of its four device calls either succeeds (\<open>None\<close>) or fails and leaves
  a last-error code (\<open>Some err\<close>).  The result is the return code and the lines logged.
\<close>

record comm_env =
  getCommState :: "DWORD option"
  setCommState :: "DWORD option"
  setCommTimeouts :: "DWORD option"
  setCommMask :: "DWORD option"

definition setComm :: "comm_env \<Rightarrow> int \<times> log_entry list" where
  "setComm ce =
     (case getCommState ce of
        Some err \<Rightarrow> (2, logError ''GetCommState'' err)
      | None \<Rightarrow>
     (case setCommState ce of
        Some err \<Rightarrow> (3, logError ''SetCommState'' err)
      | None \<Rightarrow>
     (case setCommTimeouts ce of
        Some err \<Rightarrow> (4, logError ''SetCommTimeouts'' err)
      | None \<Rightarrow>
     (case setCommMask ce of
        Some err \<Rightarrow> (5, logError ''SetCommMask'' err)
      | None \<Rightarrow> (0, [])))))"

text \<open>
  The handles \<^verbatim>\<open>main\<close> can wait on, the array \<^verbatim>\<open>waitables\<close>, and the call
  \<^verbatim>\<open>WaitForMultipleObjects(5, waitables, FALSE, 2000)\<close>.
\<close>

datatype waitable =
  ComEventOverlapped_hEvent | ComRxOverlapped_hEvent | ComTxOverlapped_hEvent
| RxBuffer_notFull | RxBuffer_notEmpty | TxBuffer_notFull | TxBuffer_notEmpty

fun signalled :: "Session \<Rightarrow> waitable \<Rightarrow> bool" where
  "signalled st ComEventOverlapped_hEvent = comEventOverlapped_hEvent st"
| "signalled st ComRxOverlapped_hEvent = comRxOverlapped_hEvent st"
| "signalled st ComTxOverlapped_hEvent = comTxOverlapped_hEvent st"
| "signalled st RxBuffer_notFull = notFull (rxBuffer st)"
| "signalled st RxBuffer_notEmpty = notEmpty (rxBuffer st)"
| "signalled st TxBuffer_notFull = notFull (txBuffer st)"
| "signalled st TxBuffer_notEmpty = notEmpty (txBuffer st)"

definition waitables :: "waitable list" where
  "waitables =
     [ComEventOverlapped_hEvent, ComRxOverlapped_hEvent, ComTxOverlapped_hEvent,
      RxBuffer_notFull, TxBuffer_notEmpty]"

record wait_call =
  nCount :: nat
  lpHandles :: "waitable list"
  bWaitAll :: bool
  dwMilliseconds :: nat

definition main_wait :: wait_call where
  "main_wait = \<lparr> nCount = 5, lpHandles = waitables, bWaitAll = False, dwMilliseconds = 2000 \<rparr>"

text \<open>
  While \<^verbatim>\<open>main\<close> waits, the two threads run.  A \<open>tick\<close> is one pass through the loop of
  \<^verbatim>\<open>main\<close> as the environment shapes it: the passes the threads make through their loops
  during the wait, each with the result of its blocking call, then the value
  \<^verbatim>\<open>WaitForMultipleObjects\<close> returns, and the last-error code behind a \<^verbatim>\<open>WAIT_FAILED\<close>.
\<close>

datatype thread_step = StdinRead int DWORD | StdoutWrite int DWORD

record tick =
  threadSteps :: "thread_step list"
  waited :: DWORD
  waitError :: DWORD

fun runThreadStep :: "thread_step \<Rightarrow> Session \<Rightarrow> Session" where
  "runThreadStep (StdinRead r errno) st =
     (if stdinReaderExit st \<noteq> None then st
      else case stdinReader_iteration r errno st of
             Next st' \<Rightarrow> st'
           | Blocked st' \<Rightarrow> st'
           | Return code st' \<Rightarrow> st'\<lparr>stdinReaderExit := Some code\<rparr>)"
| "runThreadStep (StdoutWrite r errno) st =
     (if stdoutWriterExit st \<noteq> None then st
      else case stdoutWriter_iteration r errno st of
             Next st' \<Rightarrow> st'
           | Blocked st' \<Rightarrow> st'
           | Return code st' \<Rightarrow> st'\<lparr>stdoutWriterExit := Some code\<rparr>)"

fun runThreadSteps :: "thread_step list \<Rightarrow> Session \<Rightarrow> Session" where
  "runThreadSteps [] st = st"
| "runThreadSteps (t # ts) st = runThreadSteps ts (runThreadStep t st)"

text \<open>The test at the top of the loop of \<^verbatim>\<open>main\<close>.\<close>

definition exitGracefully :: "Session \<Rightarrow> bool" where
  "exitGracefully st \<longleftrightarrow>
     (stdoutDone st \<or> \<not> (hasData (rxBuffer st) \<noteq> 0))
     \<and> (comDone st \<or> (stdinDone st \<and> \<not> (hasData (txBuffer st) \<noteq> 0)))"

text \<open>The case \<^verbatim>\<open>WAIT_TIMEOUT\<close> of the switch.\<close>

definition main_WAIT_TIMEOUT :: "Env \<Rightarrow> Session \<Rightarrow> (Session \<times> Env) option" where
  "main_WAIT_TIMEOUT env st =
     (let st0 = writeLog (logTrace ''WAIT_TIMEOUT'' []) st
      in case (if hasSpace (rxBuffer st0) \<noteq> 0 \<and> comRxError st0 = ERROR_SUCCESS
               then comRx env (writeLog (logTrace ''comRx retry'' []) st0)
               else Some (st0, env)) of
           None \<Rightarrow> None
         | Some (st1, env1) \<Rightarrow>
             (if hasData (txBuffer st1) \<noteq> 0 \<and> comTxError st1 = ERROR_SUCCESS
              then comTx env1 (writeLog (logTrace ''comTx retry'' []) st1)
              else Some (st1, env1)))"

text \<open>
  One pass through the loop of \<^verbatim>\<open>main\<close>: it goes round again (\<open>Continue\<close>), leaves at the
  test at the top (\<open>ExitGracefully\<close>), or leaves after the switch with \<^verbatim>\<open>exitCode\<close> set
  (\<open>BreakLoop\<close>).
\<close>

datatype main_flow =
  Continue "Session \<times> Env" | ExitGracefully "Session \<times> Env" | BreakLoop "Session \<times> Env"

definition main_iteration :: "tick \<Rightarrow> Env \<Rightarrow> Session \<Rightarrow> main_flow option" where
  "main_iteration t env st =
     (if exitGracefully st then Some (ExitGracefully (st, env))
      else
        let st1 = runThreadSteps (threadSteps t) st;
            w = waited t
        in
        if w = WAIT_OBJECT_0 + 0 then map_option Continue (comEvent env st1)
        else if w = WAIT_OBJECT_0 + 3 \<and> comRxError st1 \<noteq> ERROR_SUCCESS
          then Some (Continue (st1, env))
        else if w = WAIT_OBJECT_0 + 3 \<or> w = WAIT_OBJECT_0 + 1
          then map_option Continue (comRx env st1)
        else if w = WAIT_OBJECT_0 + 4 \<and> comTxError st1 \<noteq> ERROR_SUCCESS
          then Some (Continue (st1, env))
        else if w = WAIT_OBJECT_0 + 4 \<or> w = WAIT_OBJECT_0 + 2
          then map_option Continue (comTx env st1)
        else if w = WAIT_TIMEOUT then map_option Continue (main_WAIT_TIMEOUT env st1)
        else if w = WAIT_FAILED
          then Some (BreakLoop ((writeLog (logError ''WAIT_FAILED'' (waitError t)) st1)
                                  \<lparr>exitCode := 4\<rparr>, env))
        else Some (BreakLoop ((writeLog (logInfo ''WaitForMultipleObjects %x'' [ArgD w]) st1)
                                \<lparr>exitCode := 5\<rparr>, env)))"

text \<open>The loop: \<open>None\<close> when the ticks or the replies run out before the loop is left.\<close>

fun main_loop :: "tick list \<Rightarrow> Env \<Rightarrow> Session \<Rightarrow> (Session \<times> Env) option" where
  "main_loop [] env st = (if exitGracefully st then Some (st, env) else None)"
| "main_loop (t # ts) env st =
     (case main_iteration t env st of
        None \<Rightarrow> None
      | Some (ExitGracefully result) \<Rightarrow> Some result
      | Some (BreakLoop result) \<Rightarrow> Some result
      | Some (Continue (st', env')) \<Rightarrow> main_loop ts env' st')"

text \<open>
  \<^verbatim>\<open>main\<close>.  Its inputs: the arguments, whether \<^verbatim>\<open>fopen\<close> of the log file succeeds, whether
  \<^verbatim>\<open>CreateFile\<close> fails (\<open>Some err\<close>) or gives a handle (\<open>None\<close>), and the answers to
  \<^verbatim>\<open>setComm\<close>.  The usage message is logged while \<^verbatim>\<open>logFile\<close> is still \<^verbatim>\<open>NULL\<close>, so nothing
  is written; a failing \<^verbatim>\<open>_setmode\<close> only calls \<^verbatim>\<open>perror\<close>.  The statement
  \<^verbatim>\<open>setComm(comHandle);\<close> drops the return code.
\<close>

record start_env =
  argv :: "string list"
  fopenOk :: bool
  createFileError :: "DWORD option"
  comm :: comm_env

definition exitLine :: "Session \<Rightarrow> log_entry list" where
  "exitLine st =
     logInfo ''Exit code %d %s%stxData %d rxData %d''
       [ArgD (word_of_int (exitCode st)),
        ArgS (if comDone st then ''comDone '' else ''''),
        ArgS (if stdinDone st then ''stdinDone '' else ''''),
        ArgD (hasData (txBuffer st)), ArgD (hasData (rxBuffer st))]"

definition main :: "start_env \<Rightarrow> tick list \<Rightarrow> Env \<Rightarrow> (int \<times> Session) option" where
  "main se ticks env =
     (if length (argv se) < 2 then Some (1, initialSession)
      else if length (argv se) > 2 \<and> \<not> fopenOk se then Some (2, initialSession)
      else
        let comPortName = argv se ! 1;
            st0 = writeLog (logDebug ''CreateFile(%s)'' [ArgS comPortName]) initialSession
        in case createFileError se of
             Some err \<Rightarrow>
               Some (3, writeLog (logInfo ''CreateFile(%s) error %d %s''
                                    [ArgS comPortName, ArgD err, ArgErrorMessage err]) st0)
           | None \<Rightarrow>
               (let st1 = writeLog (snd (setComm (comm se))) st0
                in (case main_loop ticks env st1 of
                      None \<Rightarrow> None
                    | Some (st2, env') \<Rightarrow>
                        (let st3 = (if exitCode st2 = 0 \<and> comDone st2
                                    then st2\<lparr>exitCode := 6\<rparr> else st2);
                             st4 = writeLog (exitLine st3) st3
                         in Some (exitCode st4, st4)))))"

section \<open>Auxiliary notions for the proofs\<close>

text \<open>The same session with more lines in front of its log.\<close>

definition withLog :: "log_entry list \<Rightarrow> Session \<Rightarrow> Session" where
  "withLog entries st = st\<lparr>logFile := entries @ logFile st\<rparr>"

fun withLog_loop :: "log_entry list \<Rightarrow> loop_flow \<Rightarrow> loop_flow" where
  "withLog_loop entries (Again st) = Again (withLog entries st)"
| "withLog_loop entries (Leave st) = Leave (withLog entries st)"

fun withLog_thread :: "log_entry list \<Rightarrow> thread_flow \<Rightarrow> thread_flow" where
  "withLog_thread entries (Next st) = Next (withLog entries st)"
| "withLog_thread entries (Blocked st) = Blocked (withLog entries st)"
| "withLog_thread entries (Return code st) = Return code (withLog entries st)"

fun withLog_main :: "log_entry list \<Rightarrow> main_flow \<Rightarrow> main_flow" where
  "withLog_main entries (Continue (st, env)) = Continue (withLog entries st, env)"
| "withLog_main entries (ExitGracefully (st, env)) = ExitGracefully (withLog entries st, env)"
| "withLog_main entries (BreakLoop (st, env)) = BreakLoop (withLog entries st, env)"

text \<open>The lines \<^verbatim>\<open>main\<close> logs before it retries a receive or a transmit.\<close>

definition rxRetryLine :: log_entry where
  "rxRetryLine = (TRACE, ''comRx retry'', [])"

definition txRetryLine :: log_entry where
  "txRetryLine = (TRACE, ''comTx retry'', [])"

definition retryLines :: "Session \<Rightarrow> log_entry list" where
  "retryLines st = filter (\<lambda>e. e = rxRetryLine \<or> e = txRetryLine) (logFile st)"

text \<open>
  Replies that are enough for \<^verbatim>\<open>comRx\<close>, and for \<^verbatim>\<open>comTx\<close>, to return: every pass through
  the loop that does not return fills, or frees, at least one byte of the queue.
\<close>

definition rxBudget :: "Session \<Rightarrow> nat" where
  "rxBudget st = nat (capacity (rxBuffer st) - occupancy (rxBuffer st)) + 2"

definition txBudget :: "Session \<Rightarrow> nat" where
  "txBudget st = nat (occupancy (txBuffer st)) + 2"

text \<open>
  The part of a pass through the loop of \<^verbatim>\<open>comRx\<close>, of \<^verbatim>\<open>comTx\<close>, that starts at the call of
  \<^verbatim>\<open>GetOverlappedResult\<close>, with the event calls evaluated.
\<close>

definition comRx_poll :: "io_reply \<Rightarrow> DWORD \<Rightarrow> Session \<Rightarrow> loop_flow" where
  "comRx_poll r buffer st =
     (if ioPending (polled r) then Leave (st\<lparr>comRxError := polled r\<rparr>)
      else if polled r = ERROR_SUCCESS then
        let st' = writeLog (logDebug ''comRx read %d %s''
                              [ArgD (transferred r), ArgBytes buffer (transferred r)])
                    (st\<lparr>comRxError := ERROR_SUCCESS, comRxOverlapped_hEvent := False\<rparr>)
        in if transferred r = 0 then Leave st'
           else Again (writeLog (snd (addData (transferred r) (rxBuffer st)))
                         (st'\<lparr>rxBuffer := fst (addData (transferred r) (rxBuffer st))\<rparr>))
      else Again ((writeLog (logError ''comRx GetOverlappedResult'' (polled r))
                     (st\<lparr>comRxError := polled r\<rparr>))\<lparr>comDone := True\<rparr>))"

definition comTx_poll :: "io_reply \<Rightarrow> DWORD \<Rightarrow> Session \<Rightarrow> loop_flow" where
  "comTx_poll r buffer st =
     (let st0 = writeLog (logIOResult ''comTx GetOverlappedResult'' (polled r) (transferred r))
                  (st\<lparr>comTxError := polled r\<rparr>)
      in
      if ioPending (polled r) then Leave st0
      else if polled r = ERROR_SUCCESS then
        let st' = writeLog (logDebug ''comTx wrote %d %s''
                              [ArgD (transferred r), ArgBytes buffer (transferred r)])
                    (st0\<lparr>comTxOverlapped_hEvent := False\<rparr>)
        in if transferred r = 0 then Leave st'
           else Again (writeLog (snd (removeData (transferred r) (txBuffer st)))
                         (st'\<lparr>txBuffer := fst (removeData (transferred r) (txBuffer st))\<rparr>))
      else Again ((writeLog (logError ''comTx GetOverlappedResult'' (polled r)) st0)
                    \<lparr>comDone := True\<rparr>))"

text \<open>The session a pass ends in, whichever way it ends.\<close>

fun flowSession :: "loop_flow \<Rightarrow> Session" where
  "flowSession (Again st) = st"
| "flowSession (Leave st) = st"

text \<open>The passes \<^verbatim>\<open>comRx\<close> and \<^verbatim>\<open>comTx\<close> can still make before the queue is full, or empty.\<close>

definition rxPasses :: "Session \<Rightarrow> nat" where
  "rxPasses st =
     nat (capacity (rxBuffer st) - occupancy (rxBuffer st))
     + (if ioPending (comRxError st) then 1 else 0) + 1"

definition txPasses :: "Session \<Rightarrow> nat" where
  "txPasses st =
     nat (occupancy (txBuffer st)) + (if ioPending (comTxError st) then 1 else 0) + 1"

text \<open>
  A pass through the loop of \<^verbatim>\<open>comRx\<close> in which a receive completes with zero bytes: the
  pass polls a pending receive, or issues one that succeeds at once, and the poll reports
  success with no byte transferred.
\<close>

definition zeroByteReceive :: "Session \<Rightarrow> io_reply \<Rightarrow> bool" where
  "zeroByteReceive st r \<longleftrightarrow>
     (ioPending (comRxError st) \<or> (hasSpace (rxBuffer st) \<noteq> 0 \<and> issued r = ERROR_SUCCESS))
     \<and> polled r = ERROR_SUCCESS \<and> transferred r = 0"

text \<open>The session without its log, and a configuration in which every call succeeds.\<close>

definition eraseLog :: "Session \<Rightarrow> Session" where
  "eraseLog st = st\<lparr>logFile := []\<rparr>"

definition commOk :: comm_env where
  "commOk = \<lparr> getCommState = None, setCommState = None, setCommTimeouts = None,
              setCommMask = None \<rparr>"

text \<open>What \<^verbatim>\<open>main\<close> does with the session in which its loop ends.\<close>

definition afterLoop :: "Session \<Rightarrow> int \<times> Session" where
  "afterLoop st2 =
     (let st3 = (if exitCode st2 = 0 \<and> comDone st2 then st2\<lparr>exitCode := 6\<rparr> else st2);
          st4 = writeLog (exitLine st3) st3
      in (exitCode st4, st4))"

text \<open>Both queues of a session are well formed.\<close>

definition wellFormedSession :: "Session \<Rightarrow> bool" where
  "wellFormedSession st \<longleftrightarrow> wellFormed (rxBuffer st) \<and> wellFormed (txBuffer st)"

section \<open>Concrete inputs\<close>

text \<open>
  A reply in which the operation succeeds at once and transfers no byte, and one in which
  it transfers one byte; an environment with enough zero-byte replies for any call; the
  session in which a first receive has just completed with zero bytes.
\<close>

definition zeroReply :: io_reply where
  "zeroReply = \<lparr> issued = ERROR_SUCCESS, polled = ERROR_SUCCESS, transferred = 0 \<rparr>"

definition oneByteReply :: io_reply where
  "oneByteReply = \<lparr> issued = ERROR_SUCCESS, polled = ERROR_SUCCESS, transferred = 1 \<rparr>"

definition quietEnv :: Env where
  "quietEnv = \<lparr> eventReplies = [], rxReplies = replicate 130 zeroReply,
                txReplies = replicate 2 zeroReply \<rparr>"

definition afterZeroBytes :: Session where
  "afterZeroBytes = flowSession (comRx_iteration zeroReply initialSession)"

text \<open>A run in which \<^verbatim>\<open>GetCommState\<close> fails with error 5, the input ends at once, and the
  wait times out.\<close>

definition failingComm :: comm_env where
  "failingComm = \<lparr> getCommState = Some 5, setCommState = None, setCommTimeouts = None,
                   setCommMask = None \<rparr>"

definition exampleStart :: start_env where
  "exampleStart = \<lparr> argv = [''comProxy'', ''COM3''], fopenOk = True, createFileError = None,
                    comm = failingComm \<rparr>"

definition exampleTicks :: "tick list" where
  "exampleTicks = [\<lparr> threadSteps = [StdinRead 0 0], waited = WAIT_TIMEOUT, waitError = 0 \<rparr>]"

text \<open>
  A reply in which \<^verbatim>\<open>ReadFile\<close> fails with error 5, and a pass through the loop of \<^verbatim>\<open>main\<close>
  in which no thread moves and the wait times out.
\<close>

definition deniedReply :: io_reply where
  "deniedReply = \<lparr> issued = 5, polled = ERROR_SUCCESS, transferred = 0 \<rparr>"

definition timeoutTick :: tick where
  "timeoutTick = \<lparr> threadSteps = [], waited = WAIT_TIMEOUT, waitError = 0 \<rparr>"

section \<open>Properties of the RingBuffer\<close>

subsection \<open>Indices and occupancy as integers\<close>

lemma int_mod_window:
  fixes s d b :: int
  assumes "0 \<le> s" "s < b" "0 \<le> d" "d < b"
  shows "(s - d) mod b = (if d \<le> s then s - d else b + s - d)"
proof (cases "d \<le> s")
  case True
  with assms show ?thesis by simp
next
  case False
  have "(s - d + b) mod b = (s - d) mod b" by (simp only: mod_add_self2)
  moreover have "(s - d + b) mod b = s - d + b"
    by (rule mod_pos_pos_trivial) (use assms False in auto)
  ultimately show ?thesis using False by simp
qed

lemma wellFormed_uint:
  "wellFormed rb \<longleftrightarrow>
     uint (dataIndex rb) < uint (bufferSize rb) \<and> uint (spaceIndex rb) < uint (bufferSize rb)"
  by (simp add: wellFormed_def word_less_def)

lemma occupancy_cases:
  assumes "wellFormed rb"
  shows "occupancy rb =
     (if uint (dataIndex rb) \<le> uint (spaceIndex rb)
      then uint (spaceIndex rb) - uint (dataIndex rb)
      else uint (bufferSize rb) + uint (spaceIndex rb) - uint (dataIndex rb))"
  unfolding occupancy_def using assms
  by (intro int_mod_window) (simp_all add: wellFormed_uint)

lemma findData_uint:
  "wellFormed rb \<Longrightarrow> uint (findData rb) =
     (if uint (dataIndex rb) \<le> uint (spaceIndex rb)
      then uint (spaceIndex rb) - uint (dataIndex rb)
      else uint (bufferSize rb) - uint (dataIndex rb))"
  unfolding wellFormed_def findData_def
  by (simp add: word_le_def word_less_def uint_sub_if')

lemma findSpace_uint:
  "wellFormed rb \<Longrightarrow> uint (findSpace rb) =
     (if uint (dataIndex rb) \<le> uint (spaceIndex rb)
      then uint (bufferSize rb) - uint (spaceIndex rb) - (if uint (dataIndex rb) = 0 then 1 else 0)
      else uint (dataIndex rb) - uint (spaceIndex rb) - 1)"
  unfolding wellFormed_def findSpace_def
  by (auto simp add: word_le_def word_less_def uint_sub_if' uint_0_iff)

text \<open>The run lengths, read off the window between the two indices.\<close>

lemma ring_runs:
  fixes d s b :: int
  assumes "0 \<le> d" "d < b" "0 \<le> s" "s < b"
  shows "(if d \<le> s then s - d else b - d) = min (if d \<le> s then s - d else b + s - d) (b - d)"
    and "(if d \<le> s then b - s - (if d = 0 then 1 else 0) else d - s - 1)
       = min (b - 1 - (if d \<le> s then s - d else b + s - d)) (b - s)"
  using assms by (auto simp: min_def)

lemma hasData_run:
  assumes "wellFormed rb"
  shows "uint (hasData rb) = min (occupancy rb) (uint (bufferSize rb) - uint (dataIndex rb))"
  unfolding hasData_def findData_uint [OF assms] occupancy_cases [OF assms]
  using assms by (intro ring_runs(1)) (simp_all add: wellFormed_uint)

lemma hasSpace_run:
  assumes "wellFormed rb"
  shows "uint (hasSpace rb)
       = min (capacity rb - occupancy rb) (uint (bufferSize rb) - uint (spaceIndex rb))"
  unfolding hasSpace_def findSpace_uint [OF assms] occupancy_cases [OF assms] capacity_def
  using assms by (intro ring_runs(2)) (simp_all add: wellFormed_uint)

lemma occupancy_range:
  assumes "wellFormed rb"
  shows "0 \<le> occupancy rb" and "occupancy rb \<le> capacity rb"
proof -
  have b: "0 < uint (bufferSize rb)"
    using assms uint_nonnegative [of "dataIndex rb"] unfolding wellFormed_uint by linarith
  show "0 \<le> occupancy rb" unfolding occupancy_def using b by simp
  have "occupancy rb < uint (bufferSize rb)" unfolding occupancy_def using b by simp
  then show "occupancy rb \<le> capacity rb" by (simp add: capacity_def)
qed

lemma hasData_zero_iff:
  assumes "wellFormed rb"
  shows "hasData rb = 0 \<longleftrightarrow> occupancy rb = 0"
proof -
  have "uint (bufferSize rb) - uint (dataIndex rb) > 0"
    using assms by (simp add: wellFormed_uint)
  then have "uint (hasData rb) = 0 \<longleftrightarrow> occupancy rb = 0"
    unfolding hasData_run [OF assms] using occupancy_range(1) [OF assms] by (auto simp: min_def)
  then show ?thesis by (simp only: uint_0_iff)
qed

lemma hasSpace_zero_iff:
  assumes "wellFormed rb"
  shows "hasSpace rb = 0 \<longleftrightarrow> occupancy rb = capacity rb"
proof -
  have "uint (bufferSize rb) - uint (spaceIndex rb) > 0"
    using assms by (simp add: wellFormed_uint)
  then have "uint (hasSpace rb) = 0 \<longleftrightarrow> occupancy rb = capacity rb"
    unfolding hasSpace_run [OF assms] using occupancy_range(2) [OF assms] by (auto simp: min_def)
  then show ?thesis by (simp only: uint_0_iff)
qed

subsection \<open>One call of addData or removeData\<close>

lemma addData_buffer:
  "0 < count \<Longrightarrow> fst (addData count rb) =
     (let si = spaceIndex rb + clampCount count (findSpace rb);
          rb' = rb\<lparr>spaceIndex := (if si = bufferSize rb then 0 else si), notEmpty := True\<rparr>
      in rb'\<lparr>notFull := (if findSpace rb' = 0 then False else notFull rb)\<rparr>)"
  by (simp add: addData_def Let_def SetEvent_def ResetEvent_def clampCount_def
      ERROR_SUCCESS_def)

lemma removeData_buffer:
  "0 < count \<Longrightarrow> fst (removeData count rb) =
     (let di = dataIndex rb + clampCount count (findData rb);
          rb' = rb\<lparr>dataIndex := (if di = bufferSize rb then 0 else di), notFull := True\<rparr>
      in rb'\<lparr>notEmpty := (if findData rb' = 0 then False else notEmpty rb)\<rparr>)"
  by (simp add: removeData_def Let_def SetEvent_def ResetEvent_def clampCount_def
      ERROR_SUCCESS_def)

lemma addData_zero: "addData 0 rb = (rb, [])"
  by (simp add: addData_def)

lemma removeData_zero: "removeData 0 rb = (rb, [])"
  by (simp add: removeData_def)

lemma addData_log:
  "snd (addData count rb) =
     (if findSpace rb < count
      then [(INFO, ''buffer overrun %d > %d'', [ArgD count, ArgD (findSpace rb)])] else [])"
proof (cases "0 < count")
  case True
  then show ?thesis
    by (simp add: addData_def Let_def SetEvent_def ResetEvent_def ERROR_SUCCESS_def
        logInfo_def logLevel_def INFO_def TRACE_def split: prod.splits)
next
  case False
  then have "count = 0" by (simp add: word_greater_zero_iff)
  then show ?thesis by (simp add: addData_zero)
qed

lemma removeData_log:
  "snd (removeData count rb) =
     (if findData rb < count
      then [(INFO, ''buffer underrun %d > %d'', [ArgD count, ArgD (findData rb)])] else [])"
proof (cases "0 < count")
  case True
  then show ?thesis
    by (simp add: removeData_def Let_def SetEvent_def ResetEvent_def ERROR_SUCCESS_def
        logInfo_def logLevel_def INFO_def TRACE_def split: prod.splits)
next
  case False
  then have "count = 0" by (simp add: word_greater_zero_iff)
  then show ?thesis by (simp add: removeData_zero)
qed

lemma uint_clampCount: "uint (clampCount count avail) = min (uint count) (uint avail)"
  by (simp add: clampCount_def word_less_def min_def)

lemma addData_spaceIndex_uint:
  assumes wf: "wellFormed rb"
  shows "uint (spaceIndex rb + clampCount count (findSpace rb))
       = uint (spaceIndex rb) + min (uint count) (uint (findSpace rb))"
proof -
  have "uint (spaceIndex rb) + min (uint count) (uint (findSpace rb)) \<le> uint (bufferSize rb)"
    using wf by (auto simp: findSpace_uint wellFormed_uint min_def)
  then have "uint (spaceIndex rb) + uint (clampCount count (findSpace rb)) < 2 ^ LENGTH(32)"
    using uint_lt2p [of "bufferSize rb"] by (simp only: uint_clampCount)
  then show ?thesis
    by (simp only: uint_add_lem [THEN iffD1] uint_clampCount)
qed

lemma removeData_dataIndex_uint:
  assumes wf: "wellFormed rb"
  shows "uint (dataIndex rb + clampCount count (findData rb))
       = uint (dataIndex rb) + min (uint count) (uint (findData rb))"
proof -
  have "uint (dataIndex rb) + min (uint count) (uint (findData rb)) \<le> uint (bufferSize rb)"
    using wf by (auto simp: findData_uint wellFormed_uint min_def)
  then have "uint (dataIndex rb) + uint (clampCount count (findData rb)) < 2 ^ LENGTH(32)"
    using uint_lt2p [of "bufferSize rb"] by (simp only: uint_clampCount)
  then show ?thesis
    by (simp only: uint_add_lem [THEN iffD1] uint_clampCount)
qed

lemma ring_advance_tail:
  fixes d s b k :: int
  assumes "0 \<le> d" "d < b" "0 \<le> s" "s < b" "0 \<le> k"
    and "k \<le> (if d \<le> s then b - s - (if d = 0 then 1 else 0) else d - s - 1)"
  shows "(if s + k = b then 0 else s + k) < b"
    and "(if d \<le> (if s + k = b then 0 else s + k)
          then (if s + k = b then 0 else s + k) - d
          else b + (if s + k = b then 0 else s + k) - d)
       = (if d \<le> s then s - d else b + s - d) + k"
  using assms by (auto split: if_splits)

lemma ring_advance_head:
  fixes d s b k :: int
  assumes "0 \<le> d" "d < b" "0 \<le> s" "s < b" "0 \<le> k"
    and "k \<le> (if d \<le> s then s - d else b - d)"
  shows "(if d + k = b then 0 else d + k) < b"
    and "(if (if d + k = b then 0 else d + k) \<le> s
          then s - (if d + k = b then 0 else d + k)
          else b + s - (if d + k = b then 0 else d + k))
       = (if d \<le> s then s - d else b + s - d) - k"
  using assms by (auto split: if_splits)

lemma addData_step:
  assumes wf: "wellFormed rb" and pos: "0 < count"
  shows "wellFormed (fst (addData count rb))"
    and "bufferSize (fst (addData count rb)) = bufferSize rb"
    and "dataIndex (fst (addData count rb)) = dataIndex rb"
    and "occupancy (fst (addData count rb)) = occupancy rb + min (uint count) (uint (findSpace rb))"
proof -
  define k where "k = min (uint count) (uint (findSpace rb))"
  define si where "si = spaceIndex rb + clampCount count (findSpace rb)"
  define si' where "si' = (if si = bufferSize rb then 0 else si)"
  have si: "uint si = uint (spaceIndex rb) + k"
    unfolding si_def k_def using wf by (rule addData_spaceIndex_uint)
  have k0: "0 \<le> k" by (simp add: k_def)
  have kle: "k \<le> uint (findSpace rb)" by (simp add: k_def)
  have eq: "si = bufferSize rb \<longleftrightarrow> uint (spaceIndex rb) + k = uint (bufferSize rb)"
    using si by (metis word_uint_eq_iff)
  have si'_0: "uint si' = (if uint (spaceIndex rb) + k = uint (bufferSize rb) then 0
                         else uint (spaceIndex rb) + k)"
    using si eq by (simp add: si'_def)
  have flds: "spaceIndex (fst (addData count rb)) = si'"
    "bufferSize (fst (addData count rb)) = bufferSize rb"
    "dataIndex (fst (addData count rb)) = dataIndex rb"
    using pos by (simp_all add: addData_buffer Let_def si'_def si_def)
  show "bufferSize (fst (addData count rb)) = bufferSize rb"
    and "dataIndex (fst (addData count rb)) = dataIndex rb"
    by (rule flds)+
  note ring = ring_advance_tail [of "uint (dataIndex rb)" "uint (bufferSize rb)"
      "uint (spaceIndex rb)" k, OF _ _ _ _ k0 kle [unfolded findSpace_uint [OF wf]]]
  have bound: "uint si' < uint (bufferSize rb)"
    unfolding si'_0 using wf by (intro ring(1)) (simp_all add: wellFormed_uint)
  show wf': "wellFormed (fst (addData count rb))"
    using wf bound by (simp add: wellFormed_uint flds)
  show "occupancy (fst (addData count rb)) = occupancy rb + min (uint count) (uint (findSpace rb))"
    unfolding occupancy_cases [OF wf'] occupancy_cases [OF wf] flds si'_0 k_def [symmetric]
    using wf by (intro ring(2)) (simp_all add: wellFormed_uint)
qed

lemma removeData_step:
  assumes wf: "wellFormed rb" and pos: "0 < count"
  shows "wellFormed (fst (removeData count rb))"
    and "bufferSize (fst (removeData count rb)) = bufferSize rb"
    and "spaceIndex (fst (removeData count rb)) = spaceIndex rb"
    and "occupancy (fst (removeData count rb)) = occupancy rb - min (uint count) (uint (findData rb))"
proof -
  define k where "k = min (uint count) (uint (findData rb))"
  define di where "di = dataIndex rb + clampCount count (findData rb)"
  define di' where "di' = (if di = bufferSize rb then 0 else di)"
  have di: "uint di = uint (dataIndex rb) + k"
    unfolding di_def k_def using wf by (rule removeData_dataIndex_uint)
  have k0: "0 \<le> k" by (simp add: k_def)
  have kle: "k \<le> uint (findData rb)" by (simp add: k_def)
  have eq: "di = bufferSize rb \<longleftrightarrow> uint (dataIndex rb) + k = uint (bufferSize rb)"
    using di by (metis word_uint_eq_iff)
  have di'_0: "uint di' = (if uint (dataIndex rb) + k = uint (bufferSize rb) then 0
                         else uint (dataIndex rb) + k)"
    using di eq by (simp add: di'_def)
  have flds: "dataIndex (fst (removeData count rb)) = di'"
    "bufferSize (fst (removeData count rb)) = bufferSize rb"
    "spaceIndex (fst (removeData count rb)) = spaceIndex rb"
    using pos by (simp_all add: removeData_buffer Let_def di'_def di_def)
  show "bufferSize (fst (removeData count rb)) = bufferSize rb"
    and "spaceIndex (fst (removeData count rb)) = spaceIndex rb"
    by (rule flds)+
  note ring = ring_advance_head [of "uint (dataIndex rb)" "uint (bufferSize rb)"
      "uint (spaceIndex rb)" k, OF _ _ _ _ k0 kle [unfolded findData_uint [OF wf]]]
  have bound: "uint di' < uint (bufferSize rb)"
    unfolding di'_0 using wf by (intro ring(1)) (simp_all add: wellFormed_uint)
  show wf': "wellFormed (fst (removeData count rb))"
    using wf bound by (simp add: wellFormed_uint flds)
  show "occupancy (fst (removeData count rb)) = occupancy rb - min (uint count) (uint (findData rb))"
    unfolding occupancy_cases [OF wf'] occupancy_cases [OF wf] flds di'_0 k_def [symmetric]
    using wf by (intro ring(2)) (simp_all add: wellFormed_uint)
qed

subsection \<open>Freshly constructed and reachable buffers\<close>

lemmas ring_eval =
  newRingBuffer_def addData_def removeData_def findData_def findSpace_def hasData_def
  hasSpace_def SetEvent_def ResetEvent_def ERROR_SUCCESS_def Let_def
  logInfo_def logLevel_def INFO_def TRACE_def occupancy_def capacity_def wellFormed_def

lemma newRingBuffer_wellFormed:
  assumes "0 \<le> C" "C < 2 ^ 31 - 1"
  shows "wellFormed (newRingBuffer C)" and "uint (bufferSize (newRingBuffer C)) = C + 1"
proof -
  have "uint (word_of_int (C + 1) :: DWORD) = take_bit LENGTH(32) (C + 1)"
    by (rule uint_word_of_int_eq)
  also have "\<dots> = C + 1"
    using assms by (intro take_bit_int_eq_self) simp_all
  finally have "uint (word_of_int (C + 1) :: DWORD) = C + 1" .
  moreover have "bufferSize (newRingBuffer C) = word_of_int (C + 1)"
    by (simp only: newRingBuffer_def RingBuffer.select_convs)
  ultimately show b: "uint (bufferSize (newRingBuffer C)) = C + 1"
    by (simp only:)
  have "dataIndex (newRingBuffer C) = 0" "spaceIndex (newRingBuffer C) = 0"
    by (simp_all add: newRingBuffer_def)
  then show "wellFormed (newRingBuffer C)"
    using assms b by (simp add: wellFormed_uint)
qed

lemma reachable_invariant:
  assumes "reachable C rb" "0 \<le> C" "C < 2 ^ 31 - 1"
  shows "wellFormed rb \<and> uint (bufferSize rb) = C + 1"
  using assms
proof (induction rule: reachable.induct)
  case constructed
  then show ?case by (simp add: newRingBuffer_wellFormed)
next
  case (added rb n)
  then show ?case
    by (cases "0 < n") (simp_all add: addData_step word_greater_zero_iff addData_zero)
next
  case (removed rb n)
  then show ?case
    by (cases "0 < n") (simp_all add: removeData_step word_greater_zero_iff removeData_zero)
next
  case (notFullReset rb)
  then show ?case by (simp add: wellFormed_def)
next
  case (notEmptyReset rb)
  then show ?case by (simp add: wellFormed_def)
qed

lemma reachable_wrapped_data:
  "reachable 4 (fst (addData 1 (fst (addData 1 (fst (removeData 2 (fst (addData 4 (newRingBuffer 4)))))))))"
  by (intro reachable.intros)

lemma reachable_wrapped_space:
  "reachable 4 (fst (removeData 2 (fst (addData 3 (newRingBuffer 4)))))"
  by (intro reachable.intros)

section \<open>Claims about the RingBuffer\<close>

text \<open>
  Claim C3, as amended.  For every capacity \<open>C\<close> with \<open>1 \<le> C\<close> (and \<open>C + 1\<close> an \<^verbatim>\<open>int\<close>) and
  every \<open>n\<close> with \<open>0 \<le> n \<le> C\<close>: \<^verbatim>\<open>addData(n)\<close> followed by \<^verbatim>\<open>removeData(n)\<close> on a
  freshly constructed buffer leaves it empty: \<^verbatim>\<open>hasData()\<close> is 0 and the occupancy is 0 of
  capacity \<open>C\<close>.  \<^verbatim>\<open>hasSpace()\<close> returns the free run up to the end of the array, which is
  \<open>C\<close> for \<open>n \<le> 1\<close> and \<open>C + 1 - n\<close> otherwise.
\<close>


theorem C3_roundtrip:
  assumes C: "1 \<le> C" "C < 2 ^ 31 - 1" and n: "uint n \<le> C"
  shows "hasData (fst (removeData n (fst (addData n (newRingBuffer C))))) = 0 \<and>
         occupancy (fst (removeData n (fst (addData n (newRingBuffer C))))) = 0 \<and>
         capacity (fst (removeData n (fst (addData n (newRingBuffer C))))) = C \<and>
         uint (hasSpace (fst (removeData n (fst (addData n (newRingBuffer C))))))
           = (if uint n \<le> 1 then C else C + 1 - uint n)"
proof (cases "0 < n")
  case False
  then have n0: "n = 0" by (simp add: word_greater_zero_iff)
  have wf: "wellFormed (newRingBuffer C)" and b: "uint (bufferSize (newRingBuffer C)) = C + 1"
    using C by (simp_all add: newRingBuffer_wellFormed)
  have idx: "dataIndex (newRingBuffer C) = 0" "spaceIndex (newRingBuffer C) = 0"
    by (simp_all add: newRingBuffer_def)
  have "occupancy (newRingBuffer C) = 0"
    using wf by (simp add: occupancy_cases idx)
  moreover have "capacity (newRingBuffer C) = C" by (simp add: capacity_def b)
  moreover have "uint (hasSpace (newRingBuffer C)) = C"
    using wf by (simp add: hasSpace_def findSpace_uint idx b)
  moreover have "hasData (newRingBuffer C) = 0"
    by (simp add: hasData_def findData_def idx)
  ultimately show ?thesis by (simp add: n0 addData_zero removeData_zero)
next
  case pos: True
  define rb0 where "rb0 = newRingBuffer C"
  define rb1 where "rb1 = fst (addData n rb0)"
  define rb2 where "rb2 = fst (removeData n rb1)"
  have wf0: "wellFormed rb0" and b0: "uint (bufferSize rb0) = C + 1"
    using C by (simp_all add: rb0_def newRingBuffer_wellFormed)
  have idx0: "dataIndex rb0 = 0" "spaceIndex rb0 = 0"
    by (simp_all add: rb0_def newRingBuffer_def)
  have occ0: "occupancy rb0 = 0" using wf0 by (simp add: occupancy_cases idx0)
  have sp0: "uint (findSpace rb0) = C" using wf0 by (simp add: findSpace_uint idx0 b0)
  note s1 = addData_step [OF wf0 pos, folded rb1_def]
  have occ1: "occupancy rb1 = uint n" using s1(4) n by (simp add: occ0 sp0 min_def)
  have d1: "dataIndex rb1 = 0" using s1(3) idx0 by simp
  have b1: "uint (bufferSize rb1) = C + 1" using s1(2) b0 by simp
  have si1: "uint (spaceIndex rb1) = uint n"
    using occ1 s1(1) by (simp add: occupancy_cases d1)
  have fd1: "uint (findData rb1) = uint n"
    using s1(1) by (simp add: findData_uint d1 si1)
  note s2 = removeData_step [OF s1(1) pos, folded rb2_def]
  have occ2: "occupancy rb2 = 0" using s2(4) by (simp add: occ1 fd1)
  have b2: "uint (bufferSize rb2) = C + 1" using s2(2) b1 by simp
  have si2: "uint (spaceIndex rb2) = uint n" using s2(3) si1 by simp
  have npos: "0 < uint n" using pos by (simp add: word_less_def)
  have di2: "uint (dataIndex rb2) = uint n"
  proof -
    have "uint (dataIndex rb2) < C + 1" using s2(1) b2 by (simp add: wellFormed_uint)
    then show ?thesis
      using occ2 si2 b2 n uint_nonnegative [of "dataIndex rb2"]
      unfolding occupancy_cases [OF s2(1)]
      by (simp split: if_splits) (insert uint_nonnegative [of n], linarith)
  qed
  have "hasData rb2 = 0" using occ2 s2(1) by (simp add: hasData_zero_iff)
  moreover have "capacity rb2 = C" by (simp add: capacity_def b2)
  moreover have "uint (hasSpace rb2) = C + 1 - uint n"
    using s2(1) npos by (simp add: hasSpace_def findSpace_uint di2 si2 b2)
  ultimately show ?thesis
    using occ2 npos unfolding rb2_def rb1_def rb0_def by auto
qed

text \<open>Claim C3, the amended statement at \<open>C = 4\<close>, \<open>n = 3\<close>.\<close>


theorem C3_roundtrip_witness:
  "(1::int) \<le> 4 \<and> (4::int) < 2 ^ 31 - 1 \<and> uint (3 :: DWORD) \<le> 4 \<and>
   hasData (fst (removeData 3 (fst (addData 3 (newRingBuffer 4))))) = 0 \<and>
   occupancy (fst (removeData 3 (fst (addData 3 (newRingBuffer 4))))) = 0 \<and>
   uint (hasSpace (fst (removeData 3 (fst (addData 3 (newRingBuffer 4)))))) = 2"
  using C3_roundtrip [of 4 3] by simp

text \<open>
  Claim C3 as stated fails at \<open>C = 4\<close>, \<open>n = 2\<close>: after the two calls both indices are 2,
  and \<^verbatim>\<open>hasSpace()\<close> returns 3, the slots 2, 3 and 4, not 4.
\<close>


theorem C3_counterexample:
  "(1::int) \<le> 4 \<and> uint (2 :: DWORD) \<le> 4 \<and>
   \<not> (hasData (fst (removeData 2 (fst (addData 2 (newRingBuffer 4))))) = 0 \<and>
      hasSpace (fst (removeData 2 (fst (addData 2 (newRingBuffer 4))))) = 4)"
  by (simp add: ring_eval)

text \<open>
  Claim C4, as amended.  On a buffer of capacity 4 that starts empty: after \<^verbatim>\<open>addData(3)\<close>,
  \<^verbatim>\<open>hasData()\<close> is 3 and \<^verbatim>\<open>hasSpace()\<close> is 1; after \<^verbatim>\<open>removeData(2)\<close>, \<^verbatim>\<open>hasData()\<close> is 1
  and \<^verbatim>\<open>hasSpace()\<close> is 2, the free run up to the end of the array, while the occupancy is
  1 of 4.
\<close>


theorem C4_scenario:
  "hasData (fst (addData 3 (newRingBuffer 4))) = 3 \<and>
   hasSpace (fst (addData 3 (newRingBuffer 4))) = 1 \<and>
   hasData (fst (removeData 2 (fst (addData 3 (newRingBuffer 4))))) = 1 \<and>
   hasSpace (fst (removeData 2 (fst (addData 3 (newRingBuffer 4))))) = 2 \<and>
   occupancy (fst (removeData 2 (fst (addData 3 (newRingBuffer 4))))) = 1 \<and>
   capacity (fst (removeData 2 (fst (addData 3 (newRingBuffer 4))))) = 4"
  by (simp add: ring_eval)

text \<open>Claim C4 as stated, with \<^verbatim>\<open>hasSpace()\<close> equal to 3 at the end, is false.\<close>


theorem C4_counterexample:
  "\<not> (hasData (fst (addData 3 (newRingBuffer 4))) = 3 \<and>
      hasSpace (fst (addData 3 (newRingBuffer 4))) = 1 \<and>
      hasData (fst (removeData 2 (fst (addData 3 (newRingBuffer 4))))) = 1 \<and>
      hasSpace (fst (removeData 2 (fst (addData 3 (newRingBuffer 4))))) = 3)"
  by (simp add: ring_eval)

text \<open>
  Claim C7.  For every well-formed buffer and every \<open>n\<close> greater than \<^verbatim>\<open>hasSpace()\<close>,
  \<^verbatim>\<open>addData(n)\<close> commits exactly \<^verbatim>\<open>hasSpace()\<close> bytes, logs the overrun, and leaves both
  indices inside the backing array of \<open>C + 1\<close> slots.
\<close>


theorem C7_overrun:
  assumes "wellFormed rb" and "hasSpace rb < n"
  shows "occupancy (fst (addData n rb)) = occupancy rb + uint (hasSpace rb) \<and>
         snd (addData n rb) = [(INFO, ''buffer overrun %d > %d'', [ArgD n, ArgD (hasSpace rb)])] \<and>
         bufferSize (fst (addData n rb)) = bufferSize rb \<and>
         0 \<le> dataIndex (fst (addData n rb)) \<and>
         dataIndex (fst (addData n rb)) < bufferSize rb \<and>
         0 \<le> spaceIndex (fst (addData n rb)) \<and>
         spaceIndex (fst (addData n rb)) < bufferSize rb"
proof -
  from assms(2) have pos: "0 < n"
    by (auto simp: word_greater_zero_iff)
  have lt: "uint (findSpace rb) < uint n"
    using assms(2) by (simp add: hasSpace_def word_less_def)
  note step = addData_step [OF assms(1) pos]
  have "occupancy (fst (addData n rb)) = occupancy rb + uint (hasSpace rb)"
    using step(4) lt by (simp add: hasSpace_def min_def)
  moreover have "snd (addData n rb)
      = [(INFO, ''buffer overrun %d > %d'', [ArgD n, ArgD (hasSpace rb)])]"
    using assms(2) by (simp add: addData_log hasSpace_def)
  moreover have "dataIndex (fst (addData n rb)) < bufferSize rb"
    "spaceIndex (fst (addData n rb)) < bufferSize rb"
    using step(1) by (simp_all add: wellFormed_def step(2))
  ultimately show ?thesis using step(2) by simp
qed

text \<open>Claim C7 at an empty buffer of capacity 4 and \<open>n = 7\<close>.\<close>


theorem C7_overrun_witness:
  "wellFormed (newRingBuffer 4) \<and> hasSpace (newRingBuffer 4) < 7 \<and>
   occupancy (fst (addData 7 (newRingBuffer 4))) = 4 \<and>
   snd (addData 7 (newRingBuffer 4)) = [(INFO, ''buffer overrun %d > %d'', [ArgD 7, ArgD 4])] \<and>
   spaceIndex (fst (addData 7 (newRingBuffer 4))) = 4"
proof -
  have wf: "wellFormed (newRingBuffer 4)" by (simp add: ring_eval)
  have lt: "hasSpace (newRingBuffer 4) < 7" by (simp add: ring_eval)
  have "hasSpace (newRingBuffer 4) = 4" "occupancy (newRingBuffer 4) = 0"
    "spaceIndex (fst (addData 7 (newRingBuffer 4))) = 4"
    by (simp_all add: ring_eval)
  then show ?thesis using C7_overrun [OF wf lt] wf lt by simp
qed

text \<open>
  Claim C9.  In every reachable state of a buffer of capacity \<open>C\<close>, \<^verbatim>\<open>hasData()\<close> is 0
  exactly when the occupancy is 0 and \<^verbatim>\<open>hasSpace()\<close> is 0 exactly when the occupancy is
  \<open>C\<close>.  Each returns the length of the run that starts at its index and stops at the end
  of the array at the latest, and in some reachable states that is strictly less than the
  occupancy, or than the free space.
\<close>


theorem C9_contiguous_runs:
  assumes "reachable C rb" and "0 \<le> C" and "C < 2 ^ 31 - 1"
  shows "(hasData rb = 0 \<longleftrightarrow> occupancy rb = 0) \<and>
         (hasSpace rb = 0 \<longleftrightarrow> occupancy rb = C) \<and>
         uint (hasData rb) = min (occupancy rb) (C + 1 - uint (dataIndex rb)) \<and>
         uint (hasSpace rb) = min (C - occupancy rb) (C + 1 - uint (spaceIndex rb)) \<and>
         (\<exists>rb'. reachable 4 rb' \<and> uint (hasData rb') < occupancy rb') \<and>
         (\<exists>rb'. reachable 4 rb' \<and> uint (hasSpace rb') < 4 - occupancy rb')"
proof -
  from reachable_invariant [OF assms]
  have wf: "wellFormed rb" and b: "uint (bufferSize rb) = C + 1" by simp_all
  have cap: "capacity rb = C" by (simp add: capacity_def b)
  have "hasData rb = 0 \<longleftrightarrow> occupancy rb = 0" by (rule hasData_zero_iff [OF wf])
  moreover have "hasSpace rb = 0 \<longleftrightarrow> occupancy rb = C"
    using hasSpace_zero_iff [OF wf] cap by simp
  moreover have "uint (hasData rb) = min (occupancy rb) (C + 1 - uint (dataIndex rb))"
    using hasData_run [OF wf] b by simp
  moreover have "uint (hasSpace rb) = min (C - occupancy rb) (C + 1 - uint (spaceIndex rb))"
    using hasSpace_run [OF wf] b cap by simp
  moreover have "\<exists>rb'. reachable 4 rb' \<and> uint (hasData rb') < occupancy rb'"
    by (rule exI, rule conjI, rule reachable_wrapped_data) code_simp
  moreover have "\<exists>rb'. reachable 4 rb' \<and> uint (hasSpace rb') < 4 - occupancy rb'"
    by (rule exI, rule conjI, rule reachable_wrapped_space) code_simp
  ultimately show ?thesis by blast
qed

text \<open>Claim C9 at a state of capacity 4 whose data wraps around the end of the array.\<close>


theorem C9_contiguous_runs_witness:
  "reachable 4 (fst (addData 1 (fst (addData 1 (fst (removeData 2 (fst (addData 4 (newRingBuffer 4))))))))) \<and>
   (0::int) \<le> 4 \<and> (4::int) < 2 ^ 31 - 1 \<and>
   hasData (fst (addData 1 (fst (addData 1 (fst (removeData 2 (fst (addData 4 (newRingBuffer 4))))))))) = 3 \<and>
   occupancy (fst (addData 1 (fst (addData 1 (fst (removeData 2 (fst (addData 4 (newRingBuffer 4))))))))) = 4 \<and>
   hasSpace (fst (addData 1 (fst (addData 1 (fst (removeData 2 (fst (addData 4 (newRingBuffer 4))))))))) = 0"
proof -
  have occ: "occupancy (fst (addData 1 (fst (addData 1 (fst (removeData 2
      (fst (addData 4 (newRingBuffer 4))))))))) = 4"
    by code_simp
  have hd: "hasData (fst (addData 1 (fst (addData 1 (fst (removeData 2
      (fst (addData 4 (newRingBuffer 4))))))))) = 3"
    by code_simp
  show ?thesis
    using C9_contiguous_runs [OF reachable_wrapped_data] reachable_wrapped_data occ hd by simp
qed

section \<open>Claims about the two threads\<close>

text \<open>
  Claim C2 is what the source intends, but \<^verbatim>\<open>wasRead\<close> and \<^verbatim>\<open>wasWritten\<close> are unsigned, so
  the tests \<^verbatim>\<open>wasRead < 0\<close> and \<^verbatim>\<open>wasWritten < 0\<close> never hold.  When \<^verbatim>\<open>_read\<close> returns -1
  the input loop sets no flag and goes on, after committing 128 bytes that were never
  read; when \<^verbatim>\<open>_write\<close> returns -1 the output loop sets no flag and goes on, after
  dropping the 3 bytes it failed to write.
\<close>


theorem C2_error_not_detected:
  "(case stdinReader_iteration (- 1) 9 initialSession of
      Next st' \<Rightarrow> \<not> stdinDone st' \<and> hasData (txBuffer st') = 128
    | Blocked st' \<Rightarrow> False
    | Return code st' \<Rightarrow> False) \<and>
   (case stdoutWriter_iteration (- 1) 9
           (initialSession\<lparr>rxBuffer := fst (addData 3 (rxBuffer initialSession))\<rparr>) of
      Next st' \<Rightarrow> \<not> stdoutDone st' \<and> hasData (rxBuffer st') = 0
    | Blocked st' \<Rightarrow> False
    | Return code st' \<Rightarrow> False)"
  by code_simp

text \<open>No pass through either loop returns with a non-zero code.\<close>


lemma stdinReader_iteration_Return:
  "stdinReader_iteration r errno st = Return code st' \<Longrightarrow> code = 0 \<and> (word_of_int r :: DWORD) = 0"
  by (auto simp: stdinReader_iteration_def Let_def split: if_splits prod.splits)

lemma stdoutWriter_iteration_no_Return:
  "stdoutWriter_iteration r errno st \<noteq> Return code st'"
  by (auto simp: stdoutWriter_iteration_def Let_def split: if_splits prod.splits)

text \<open>Nor does any run of either loop.\<close>

lemma stdinReader_Return:
  "stdinReader rs st = Return code st' \<Longrightarrow> code = 0"
proof (induction rs arbitrary: st)
  case Nil
  then show ?case by simp
next
  case (Cons p rs)
  obtain r errno where p: "p = (r, errno)" by (cases p)
  show ?case
  proof (cases "stdinReader_iteration r errno st")
    case (Next s)
    with Cons.prems p have "stdinReader rs s = Return code st'" by simp
    then show ?thesis by (rule Cons.IH)
  next
    case (Blocked s)
    with Cons.prems p show ?thesis by simp
  next
    case (Return c s)
    with Cons.prems p have "c = code" by simp
    with stdinReader_iteration_Return [OF Return] show ?thesis by simp
  qed
qed

lemma stdoutWriter_no_Return:
  "stdoutWriter rs st \<noteq> Return code st'"
proof (induction rs arbitrary: st)
  case Nil
  show ?case by simp
next
  case (Cons p rs)
  obtain r errno where p: "p = (r, errno)" by (cases p)
  show ?case
    using Cons.IH stdoutWriter_iteration_no_Return [of r errno st]
    by (cases "stdoutWriter_iteration r errno st") (simp_all add: p)
qed
section \<open>Properties of the coordinator\<close>

subsection \<open>One pass through the loop of comRx and of comTx\<close>

lemma writeLog_fields [simp]:
  "rxBuffer (writeLog L st) = rxBuffer st" "txBuffer (writeLog L st) = txBuffer st"
  "comEventMask (writeLog L st) = comEventMask st" "comEventError (writeLog L st) = comEventError st"
  "comRxError (writeLog L st) = comRxError st" "comTxError (writeLog L st) = comTxError st"
  "comDone (writeLog L st) = comDone st" "stdinDone (writeLog L st) = stdinDone st"
  "stdoutDone (writeLog L st) = stdoutDone st"
  "comEventOverlapped_hEvent (writeLog L st) = comEventOverlapped_hEvent st"
  "comRxOverlapped_hEvent (writeLog L st) = comRxOverlapped_hEvent st"
  "comTxOverlapped_hEvent (writeLog L st) = comTxOverlapped_hEvent st"
  "exitCode (writeLog L st) = exitCode st"
  "stdinReaderExit (writeLog L st) = stdinReaderExit st"
  "stdoutWriterExit (writeLog L st) = stdoutWriterExit st"
  "logFile (writeLog L st) = logFile st @ L"
  by (simp_all add: writeLog_def)

lemma writeLog_Nil [simp]: "writeLog [] st = st"
  by (simp add: writeLog_def)

lemma ioPending_SUCCESS [simp]: "\<not> ioPending ERROR_SUCCESS"
  by (simp add: ioPending_def ERROR_SUCCESS_def ERROR_IO_INCOMPLETE_def ERROR_IO_PENDING_def)

lemma comRx_iteration_flat:
  "comRx_iteration r st =
     (if ioPending (comRxError st) then comRx_poll r (space (rxBuffer st)) st
      else if hasSpace (rxBuffer st) = 0 then Leave st
      else
        let st1 = writeLog (logIOResult ''comRx ReadFile'' (issued r) (hasSpace (rxBuffer st)))
                    (st\<lparr>comRxError := issued r\<rparr>)
        in if ioPending (issued r) then Leave st1
           else if issued r = ERROR_SUCCESS then comRx_poll r (space (rxBuffer st)) st1
           else Again ((writeLog (logError ''comRx ReadFile'' (issued r)) st1)\<lparr>comDone := True\<rparr>))"
  unfolding comRx_iteration_def comRx_poll_def ResetEvent_def
  apply (cases "ioPending (comRxError st)"; cases "hasSpace (rxBuffer st) = 0";
      cases "ioPending (issued r)"; cases "issued r = ERROR_SUCCESS";
      cases "ioPending (polled r)"; cases "polled r = ERROR_SUCCESS"; cases "transferred r = 0")
  apply (simp_all add: Let_def case_prod_beta)
  done

lemma comTx_iteration_flat:
  "comTx_iteration r st =
     (if ioPending (comTxError st) then comTx_poll r (data (txBuffer st)) st
      else if hasData (txBuffer st) = 0 then Leave st
      else
        let st1 = writeLog (logIOResult ''comTx WriteFile'' (issued r) (hasData (txBuffer st)))
                    (st\<lparr>comTxError := issued r\<rparr>)
        in if ioPending (issued r) then Leave st1
           else if issued r = ERROR_SUCCESS then comTx_poll r (data (txBuffer st)) st1
           else Again ((writeLog (logError ''comTx WriteFile'' (issued r)) st1)\<lparr>comDone := True\<rparr>))"
  unfolding comTx_iteration_def comTx_poll_def ResetEvent_def
  apply (cases "ioPending (comTxError st)"; cases "hasData (txBuffer st) = 0";
      cases "ioPending (issued r)"; cases "issued r = ERROR_SUCCESS";
      cases "ioPending (polled r)"; cases "polled r = ERROR_SUCCESS"; cases "transferred r = 0")
  apply (simp_all add: Let_def case_prod_beta)
  done

subsection \<open>What comRx and comTx leave alone\<close>

lemma comRx_poll_frame:
  "txBuffer (flowSession (comRx_poll r b st)) = txBuffer st"
  "comTxError (flowSession (comRx_poll r b st)) = comTxError st"
  "stdinDone (flowSession (comRx_poll r b st)) = stdinDone st"
  "stdoutDone (flowSession (comRx_poll r b st)) = stdoutDone st"
  by (simp_all add: comRx_poll_def Let_def)

lemma comRx_iteration_frame:
  "txBuffer (flowSession (comRx_iteration r st)) = txBuffer st"
  "comTxError (flowSession (comRx_iteration r st)) = comTxError st"
  "stdinDone (flowSession (comRx_iteration r st)) = stdinDone st"
  "stdoutDone (flowSession (comRx_iteration r st)) = stdoutDone st"
  by (simp_all add: comRx_iteration_flat Let_def comRx_poll_frame)

lemma comTx_poll_frame:
  "rxBuffer (flowSession (comTx_poll r b st)) = rxBuffer st"
  "comRxError (flowSession (comTx_poll r b st)) = comRxError st"
  "stdinDone (flowSession (comTx_poll r b st)) = stdinDone st"
  "stdoutDone (flowSession (comTx_poll r b st)) = stdoutDone st"
  by (simp_all add: comTx_poll_def Let_def)

lemma comTx_iteration_frame:
  "rxBuffer (flowSession (comTx_iteration r st)) = rxBuffer st"
  "comRxError (flowSession (comTx_iteration r st)) = comRxError st"
  "stdinDone (flowSession (comTx_iteration r st)) = stdinDone st"
  "stdoutDone (flowSession (comTx_iteration r st)) = stdoutDone st"
  by (simp_all add: comTx_iteration_flat Let_def comTx_poll_frame)

lemma comRx_loop_frame:
  "comRx_loop rs st = Some (st', rs') \<Longrightarrow>
     txBuffer st' = txBuffer st \<and>
     comTxError st' = comTxError st \<and> stdinDone st' = stdinDone st \<and>
     stdoutDone st' = stdoutDone st"
proof (induction rs arbitrary: st)
  case Nil
  then show ?case by (simp split: if_splits)
next
  case (Cons r rs)
  show ?case
  proof (cases "comDone st")
    case True
    with Cons.prems show ?thesis by simp
  next
    case False
    show ?thesis
    proof (cases "comRx_iteration r st")
      case (Again s)
      with Cons.prems False have "comRx_loop rs s = Some (st', rs')" by simp
      from Cons.IH [OF this] comRx_iteration_frame [of r st] Again show ?thesis by simp
    next
      case (Leave s)
      with Cons.prems False have "s = st'" by simp
      with comRx_iteration_frame [of r st] Leave show ?thesis by simp
    qed
  qed
qed

lemma comTx_loop_frame:
  "comTx_loop rs st = Some (st', rs') \<Longrightarrow>
     rxBuffer st' = rxBuffer st \<and>
     comRxError st' = comRxError st \<and> stdinDone st' = stdinDone st \<and>
     stdoutDone st' = stdoutDone st"
proof (induction rs arbitrary: st)
  case Nil
  then show ?case by (simp split: if_splits)
next
  case (Cons r rs)
  show ?case
  proof (cases "comDone st")
    case True
    with Cons.prems show ?thesis by simp
  next
    case False
    show ?thesis
    proof (cases "comTx_iteration r st")
      case (Again s)
      with Cons.prems False have "comTx_loop rs s = Some (st', rs')" by simp
      from Cons.IH [OF this] comTx_iteration_frame [of r st] Again show ?thesis by simp
    next
      case (Leave s)
      with Cons.prems False have "s = st'" by simp
      with comTx_iteration_frame [of r st] Leave show ?thesis by simp
    qed
  qed
qed

lemma comRx_frame:
  assumes "comRx env st = Some (st', env')"
  shows "txBuffer st' = txBuffer st"
    "comTxError st' = comTxError st" "txReplies env' = txReplies env"
    "eventReplies env' = eventReplies env"
  using assms comRx_loop_frame
  by (fastforce simp: comRx_def ResetEvent_def Let_def split: option.splits)+

lemma comTx_frame:
  assumes "comTx env st = Some (st', env')"
  shows "rxBuffer st' = rxBuffer st"
    "comRxError st' = comRxError st" "rxReplies env' = rxReplies env"
    "eventReplies env' = eventReplies env"
  using assms comTx_loop_frame
  by (fastforce simp: comTx_def ResetEvent_def Let_def split: option.splits)+

subsection \<open>Every session of a run is well formed\<close>

lemma addData_wellFormed:
  "wellFormed rb \<Longrightarrow> wellFormed (fst (addData n rb))"
  "wellFormed rb \<Longrightarrow> capacity (fst (addData n rb)) = capacity rb"
  by (cases "0 < n"; simp add: addData_step capacity_def word_greater_zero_iff addData_zero)+

lemma removeData_wellFormed:
  "wellFormed rb \<Longrightarrow> wellFormed (fst (removeData n rb))"
  "wellFormed rb \<Longrightarrow> capacity (fst (removeData n rb)) = capacity rb"
  by (cases "0 < n"; simp add: removeData_step capacity_def word_greater_zero_iff removeData_zero)+

lemma addData_occupancy:
  "wellFormed rb \<Longrightarrow>
     occupancy (fst (addData n rb)) = occupancy rb + min (uint n) (uint (findSpace rb))"
  by (cases "0 < n") (simp_all add: addData_step word_greater_zero_iff addData_zero)

lemma removeData_occupancy:
  "wellFormed rb \<Longrightarrow>
     occupancy (fst (removeData n rb)) = occupancy rb - min (uint n) (uint (findData rb))"
  by (cases "0 < n") (simp_all add: removeData_step word_greater_zero_iff removeData_zero)

lemma comRx_poll_wellFormed:
  "wellFormed (rxBuffer st) \<Longrightarrow> wellFormed (rxBuffer (flowSession (comRx_poll r b st)))"
  by (simp add: comRx_poll_def Let_def addData_wellFormed)

lemma comRx_iteration_wellFormed:
  "wellFormed (rxBuffer st) \<Longrightarrow> wellFormed (rxBuffer (flowSession (comRx_iteration r st)))"
  by (simp add: comRx_iteration_flat Let_def comRx_poll_wellFormed)

lemma comTx_poll_wellFormed:
  "wellFormed (txBuffer st) \<Longrightarrow> wellFormed (txBuffer (flowSession (comTx_poll r b st)))"
  by (simp add: comTx_poll_def Let_def removeData_wellFormed)

lemma comTx_iteration_wellFormed:
  "wellFormed (txBuffer st) \<Longrightarrow> wellFormed (txBuffer (flowSession (comTx_iteration r st)))"
  by (simp add: comTx_iteration_flat Let_def comTx_poll_wellFormed)

lemma wellFormedSession_writeLog [simp]:
  "wellFormedSession (writeLog es st) = wellFormedSession st"
  by (simp add: wellFormedSession_def)

lemma wellFormedSession_initial: "wellFormedSession initialSession"
  by (simp add: wellFormedSession_def initialSession_def newRingBuffer_wellFormed)

lemma comRx_iteration_wellFormedSession:
  "wellFormedSession st \<Longrightarrow> wellFormedSession (flowSession (comRx_iteration r st))"
  by (simp add: wellFormedSession_def comRx_iteration_wellFormed comRx_iteration_frame)

lemma comTx_iteration_wellFormedSession:
  "wellFormedSession st \<Longrightarrow> wellFormedSession (flowSession (comTx_iteration r st))"
  by (simp add: wellFormedSession_def comTx_iteration_wellFormed comTx_iteration_frame)

lemma comRx_loop_wellFormedSession:
  "comRx_loop rs st = Some (st', rs') \<Longrightarrow> wellFormedSession st \<Longrightarrow> wellFormedSession st'"
proof (induction rs arbitrary: st)
  case Nil
  then show ?case by (simp split: if_splits)
next
  case (Cons r rs)
  show ?case
  proof (cases "comDone st")
    case True
    with Cons.prems show ?thesis by simp
  next
    case False
    note wf = comRx_iteration_wellFormedSession [OF Cons.prems(2), of r]
    show ?thesis
    proof (cases "comRx_iteration r st")
      case (Again s)
      with Cons.prems False have "comRx_loop rs s = Some (st', rs')" by simp
      from Cons.IH [OF this] wf Again show ?thesis by simp
    next
      case (Leave s)
      with Cons.prems False wf show ?thesis by simp
    qed
  qed
qed

lemma comTx_loop_wellFormedSession:
  "comTx_loop rs st = Some (st', rs') \<Longrightarrow> wellFormedSession st \<Longrightarrow> wellFormedSession st'"
proof (induction rs arbitrary: st)
  case Nil
  then show ?case by (simp split: if_splits)
next
  case (Cons r rs)
  show ?case
  proof (cases "comDone st")
    case True
    with Cons.prems show ?thesis by simp
  next
    case False
    note wf = comTx_iteration_wellFormedSession [OF Cons.prems(2), of r]
    show ?thesis
    proof (cases "comTx_iteration r st")
      case (Again s)
      with Cons.prems False have "comTx_loop rs s = Some (st', rs')" by simp
      from Cons.IH [OF this] wf Again show ?thesis by simp
    next
      case (Leave s)
      with Cons.prems False wf show ?thesis by simp
    qed
  qed
qed

lemma comRx_wellFormedSession:
  assumes "comRx env st = Some (st', env')" and "wellFormedSession st"
  shows "wellFormedSession st'"
proof -
  have "wellFormedSession (st\<lparr>rxBuffer := (rxBuffer st)\<lparr>notFull := False\<rparr>\<rparr>)"
    using assms(2) by (simp add: wellFormedSession_def wellFormed_def)
  with assms(1) comRx_loop_wellFormedSession show ?thesis
    by (fastforce simp: comRx_def ResetEvent_def Let_def split: option.splits)
qed

lemma comTx_wellFormedSession:
  assumes "comTx env st = Some (st', env')" and "wellFormedSession st"
  shows "wellFormedSession st'"
proof -
  have "wellFormedSession (st\<lparr>txBuffer := (txBuffer st)\<lparr>notEmpty := False\<rparr>\<rparr>)"
    using assms(2) by (simp add: wellFormedSession_def wellFormed_def)
  with assms(1) comTx_loop_wellFormedSession show ?thesis
    by (fastforce simp: comTx_def ResetEvent_def Let_def split: option.splits)
qed

lemma comEvent_switches_buffers:
  "rxBuffer (flowSession (comEvent_switches r st)) = rxBuffer st"
  "txBuffer (flowSession (comEvent_switches r st)) = txBuffer st"
  unfolding comEvent_switches_def ResetEvent_def
  by (cases "ioPending (comEventError st)"; cases "comEventError st = ERROR_SUCCESS";
      cases "ioPending (waitIssued r)"; cases "waitIssued r = ERROR_SUCCESS";
      cases "ioPending (waitPolled r)"; cases "waitPolled r = ERROR_SUCCESS";
      simp add: Let_def case_prod_beta)+

lemma comEvent_loop_wellFormedSession:
  "comEvent_loop rs env st = Some (st', rs', env') \<Longrightarrow> wellFormedSession st
     \<Longrightarrow> wellFormedSession st'"
proof (induction rs arbitrary: env st)
  case Nil
  then show ?case by (simp split: if_splits)
next
  case (Cons r rs)
  show ?case
  proof (cases "comDone st")
    case True
    with Cons.prems show ?thesis by simp
  next
    case False
    have wf: "wellFormedSession (flowSession (comEvent_switches r st))"
      using Cons.prems(2) by (simp add: wellFormedSession_def comEvent_switches_buffers)
    show ?thesis
    proof (cases "comEvent_switches r st")
      case (Leave s)
      with Cons.prems False wf show ?thesis by simp
    next
      case (Again s1)
      with wf have wf1: "wellFormedSession s1" by simp
      from Cons.prems(1) False Again obtain s2 e2 where
        rx: "(if comEventMask s1 AND EV_RXCHAR \<noteq> 0 then comRx env s1 else Some (s1, env))
              = Some (s2, e2)"
        by (auto split: option.splits)
      then have wf2: "wellFormedSession s2"
        using wf1 comRx_wellFormedSession by (auto split: if_splits)
      from Cons.prems(1) False Again rx obtain s3 e3 where
        tx: "(if comEventMask s2 AND EV_TXEMPTY \<noteq> 0 then comTx e2 s2 else Some (s2, e2))
              = Some (s3, e3)"
        and rest: "comEvent_loop rs e3 s3 = Some (st', rs', env')"
        by (auto split: option.splits)
      from tx have wf3: "wellFormedSession s3"
        using wf2 comTx_wellFormedSession by (auto split: if_splits)
      from Cons.IH [OF rest wf3] show ?thesis .
    qed
  qed
qed

lemma comEvent_wellFormedSession:
  "comEvent env st = Some (st', env') \<Longrightarrow> wellFormedSession st \<Longrightarrow> wellFormedSession st'"
  using comEvent_loop_wellFormedSession
  by (fastforce simp: comEvent_def split: option.splits)

lemma runThreadStep_wellFormedSession:
  "wellFormedSession st \<Longrightarrow> wellFormedSession (runThreadStep t st)"
proof (cases t)
  case (StdinRead r errno)
  assume wf: "wellFormedSession st"
  have "wellFormedSession s"
    if "stdinReader_iteration r errno st \<in> {Next s, Blocked s, Return c s}" for s c
    using that wf
    by (auto simp: stdinReader_iteration_def Let_def wellFormedSession_def addData_wellFormed
        case_prod_beta split: if_splits)
  then show ?thesis
    using StdinRead wf
    by (cases "stdinReader_iteration r errno st") (auto simp: wellFormedSession_def)
next
  case (StdoutWrite r errno)
  assume wf: "wellFormedSession st"
  have "wellFormedSession s"
    if "stdoutWriter_iteration r errno st \<in> {Next s, Blocked s, Return c s}" for s c
    using that wf
    by (auto simp: stdoutWriter_iteration_def Let_def wellFormedSession_def
        removeData_wellFormed case_prod_beta split: if_splits)
  then show ?thesis
    using StdoutWrite wf
    by (cases "stdoutWriter_iteration r errno st") (auto simp: wellFormedSession_def)
qed

lemma runThreadSteps_wellFormedSession:
  "wellFormedSession st \<Longrightarrow> wellFormedSession (runThreadSteps ts st)"
  by (induction ts arbitrary: st) (simp_all add: runThreadStep_wellFormedSession)

lemma main_WAIT_TIMEOUT_wellFormedSession:
  assumes "main_WAIT_TIMEOUT env st = Some (st', env')" and "wellFormedSession st"
  shows "wellFormedSession st'"
proof -
  define st0 where "st0 = writeLog (logTrace ''WAIT_TIMEOUT'' []) st"
  from assms(1) obtain s1 e1 where
    rx: "(if hasSpace (rxBuffer st0) \<noteq> 0 \<and> comRxError st0 = ERROR_SUCCESS
          then comRx env (writeLog (logTrace ''comRx retry'' []) st0)
          else Some (st0, env)) = Some (s1, e1)"
    and tx: "(if hasData (txBuffer s1) \<noteq> 0 \<and> comTxError s1 = ERROR_SUCCESS
              then comTx e1 (writeLog (logTrace ''comTx retry'' []) s1)
              else Some (s1, e1)) = Some (st', env')"
    unfolding main_WAIT_TIMEOUT_def Let_def st0_def [symmetric]
    by (auto split: option.splits)
  have "wellFormedSession st0" using assms(2) by (simp add: st0_def)
  with rx have "wellFormedSession s1"
    using comRx_wellFormedSession [of env "writeLog (logTrace ''comRx retry'' []) st0" s1 e1]
    by (auto split: if_splits)
  with tx show ?thesis
    using comTx_wellFormedSession [of e1 "writeLog (logTrace ''comTx retry'' []) s1" st' env']
    by (auto split: if_splits)
qed

lemma main_iteration_wellFormedSession:
  assumes "main_iteration t env st = Some flow" and "wellFormedSession st"
    and "flow \<in> {Continue (st', env'), ExitGracefully (st', env'), BreakLoop (st', env')}"
  shows "wellFormedSession st'"
proof -
  note wf1 = runThreadSteps_wellFormedSession [OF assms(2), of "threadSteps t"]
  show ?thesis
    using assms wf1 comEvent_wellFormedSession comRx_wellFormedSession
      comTx_wellFormedSession main_WAIT_TIMEOUT_wellFormedSession
    by (auto simp: main_iteration_def Let_def wellFormedSession_def split: if_splits)
qed

lemma main_loop_wellFormedSession:
  "main_loop ts env st = Some (st', env') \<Longrightarrow> wellFormedSession st \<Longrightarrow> wellFormedSession st'"
proof (induction ts arbitrary: env st)
  case Nil
  then show ?case by (simp split: if_splits)
next
  case (Cons t ts)
  from Cons.prems(1) obtain flow where it: "main_iteration t env st = Some flow"
    by (auto split: option.splits)
  show ?case
  proof (cases flow)
    case (Continue p)
    obtain s e where p: "p = (s, e)" by (cases p)
    have "wellFormedSession s"
      using main_iteration_wellFormedSession [OF it Cons.prems(2), of s e] Continue p by simp
    moreover have "main_loop ts e s = Some (st', env')"
      using Cons.prems(1) it Continue p by simp
    ultimately show ?thesis using Cons.IH by blast
  next
    case (ExitGracefully p)
    then have "p = (st', env')" using Cons.prems(1) it by simp
    then show ?thesis
      using main_iteration_wellFormedSession [OF it Cons.prems(2), of st' env'] ExitGracefully
      by simp
  next
    case (BreakLoop p)
    then have "p = (st', env')" using Cons.prems(1) it by simp
    then show ?thesis
      using main_iteration_wellFormedSession [OF it Cons.prems(2), of st' env'] BreakLoop
      by simp
  qed
qed

subsection \<open>comRx and comTx return\<close>

lemma uint_pos_iff: "0 < uint (w :: DWORD) \<longleftrightarrow> w \<noteq> 0"
  using uint_nonnegative [of w] uint_0_iff [of w] by linarith

lemma comRx_poll_Again:
  assumes "comRx_poll r b st = Again s"
  shows "comDone s \<or>
         (\<not> ioPending (comRxError s) \<and> transferred r \<noteq> 0 \<and>
          rxBuffer s = fst (addData (transferred r) (rxBuffer st)))"
  using assms by (auto simp: comRx_poll_def Let_def split: if_splits)

lemma comRx_iteration_progress:
  assumes wf: "wellFormed (rxBuffer st)" and again: "comRx_iteration r st = Again s"
  shows "comDone s \<or> rxPasses s < rxPasses st"
proof (cases "ioPending (comRxError st)")
  case True
  with again have "comRx_poll r (space (rxBuffer st)) st = Again s"
    by (simp add: comRx_iteration_flat)
  from comRx_poll_Again [OF this] show ?thesis
  proof
    assume "comDone s" then show ?thesis ..
  next
    assume a: "\<not> ioPending (comRxError s) \<and> transferred r \<noteq> 0 \<and>
          rxBuffer s = fst (addData (transferred r) (rxBuffer st))"
    have "occupancy (rxBuffer s) \<ge> occupancy (rxBuffer st)"
      using a wf by (simp add: addData_occupancy)
    then have "rxPasses s < rxPasses st"
      using a wf True by (simp add: rxPasses_def addData_wellFormed)
    then show ?thesis ..
  qed
next
  case False
  define st1 where "st1 = writeLog (logIOResult ''comRx ReadFile'' (issued r)
      (hasSpace (rxBuffer st))) (st\<lparr>comRxError := issued r\<rparr>)"
  have space: "hasSpace (rxBuffer st) \<noteq> 0"
    using again False by (auto simp: comRx_iteration_flat)
  from again False space
  consider "comDone s" | "comRx_poll r (space (rxBuffer st)) st1 = Again s"
    by (auto simp: comRx_iteration_flat Let_def st1_def split: if_splits)
  then show ?thesis
  proof cases
    case 1
    then show ?thesis ..
  next
    case 2
    from comRx_poll_Again [OF 2] show ?thesis
    proof
      assume "comDone s" then show ?thesis ..
    next
      assume a: "\<not> ioPending (comRxError s) \<and> transferred r \<noteq> 0 \<and>
          rxBuffer s = fst (addData (transferred r) (rxBuffer st1))"
      have rb: "rxBuffer st1 = rxBuffer st" by (simp add: st1_def)
      have "0 < uint (transferred r)" "0 < uint (findSpace (rxBuffer st))"
        using a space by (simp_all add: uint_pos_iff hasSpace_def)
      then have "occupancy (rxBuffer s) \<ge> occupancy (rxBuffer st) + 1"
        using a wf by (simp add: addData_occupancy rb min_def)
      moreover have "occupancy (rxBuffer st) < capacity (rxBuffer st)"
        using hasSpace_zero_iff [OF wf] space occupancy_range(2) [OF wf] by simp
      ultimately have "rxPasses s < rxPasses st"
        using a wf by (simp add: rxPasses_def addData_wellFormed rb)
      then show ?thesis ..
    qed
  qed
qed

lemma comRx_loop_returns:
  assumes "wellFormed (rxBuffer st)" and "comDone st \<or> rxPasses st \<le> length rs"
  shows "\<exists>res. comRx_loop rs st = Some res"
  using assms
proof (induction rs arbitrary: st)
  case Nil
  then show ?case by (simp add: rxPasses_def)
next
  case (Cons r rs)
  show ?case
  proof (cases "comDone st")
    case True
    then show ?thesis by simp
  next
    case False
    show ?thesis
    proof (cases "comRx_iteration r st")
      case (Leave s)
      with False show ?thesis by simp
    next
      case (Again s)
      have wf: "wellFormed (rxBuffer s)"
        using comRx_iteration_wellFormed [OF Cons.prems(1), of r] Again by simp
      have "comDone s \<or> rxPasses s \<le> length rs"
        using comRx_iteration_progress [OF Cons.prems(1) Again] Cons.prems(2) False by auto
      from Cons.IH [OF wf this] Again False show ?thesis by simp
    qed
  qed
qed

lemma comTx_poll_Again:
  assumes "comTx_poll r b st = Again s"
  shows "comDone s \<or>
         (\<not> ioPending (comTxError s) \<and> transferred r \<noteq> 0 \<and>
          txBuffer s = fst (removeData (transferred r) (txBuffer st)))"
  using assms by (auto simp: comTx_poll_def Let_def split: if_splits)

lemma comTx_iteration_progress:
  assumes wf: "wellFormed (txBuffer st)" and again: "comTx_iteration r st = Again s"
  shows "comDone s \<or> txPasses s < txPasses st"
proof (cases "ioPending (comTxError st)")
  case True
  with again have "comTx_poll r (data (txBuffer st)) st = Again s"
    by (simp add: comTx_iteration_flat)
  from comTx_poll_Again [OF this] show ?thesis
  proof
    assume "comDone s" then show ?thesis ..
  next
    assume a: "\<not> ioPending (comTxError s) \<and> transferred r \<noteq> 0 \<and>
          txBuffer s = fst (removeData (transferred r) (txBuffer st))"
    have "0 \<le> uint (findData (txBuffer st))" by simp
    then have "occupancy (txBuffer s) \<le> occupancy (txBuffer st)"
      using a wf by (simp add: removeData_occupancy)
    then have "txPasses s < txPasses st"
      using a True by (simp add: txPasses_def)
    then show ?thesis ..
  qed
next
  case False
  define st1 where "st1 = writeLog (logIOResult ''comTx WriteFile'' (issued r)
      (hasData (txBuffer st))) (st\<lparr>comTxError := issued r\<rparr>)"
  have nonempty: "hasData (txBuffer st) \<noteq> 0"
    using again False by (auto simp: comTx_iteration_flat)
  from again False nonempty
  consider "comDone s" | "comTx_poll r (data (txBuffer st)) st1 = Again s"
    by (auto simp: comTx_iteration_flat Let_def st1_def split: if_splits)
  then show ?thesis
  proof cases
    case 1
    then show ?thesis ..
  next
    case 2
    from comTx_poll_Again [OF 2] show ?thesis
    proof
      assume "comDone s" then show ?thesis ..
    next
      assume a: "\<not> ioPending (comTxError s) \<and> transferred r \<noteq> 0 \<and>
          txBuffer s = fst (removeData (transferred r) (txBuffer st1))"
      have rb: "txBuffer st1 = txBuffer st" by (simp add: st1_def)
      have "0 < uint (transferred r)" "0 < uint (findData (txBuffer st))"
        using a nonempty by (simp_all add: uint_pos_iff hasData_def)
      then have "occupancy (txBuffer s) \<le> occupancy (txBuffer st) - 1"
        using a wf by (simp add: removeData_occupancy rb min_def)
      moreover have "0 < occupancy (txBuffer st)"
        using hasData_zero_iff [OF wf] nonempty occupancy_range(1) [OF wf] by simp
      ultimately have "txPasses s < txPasses st"
        using a by (simp add: txPasses_def)
      then show ?thesis ..
    qed
  qed
qed

lemma comTx_loop_returns:
  assumes "wellFormed (txBuffer st)" and "comDone st \<or> txPasses st \<le> length rs"
  shows "\<exists>res. comTx_loop rs st = Some res"
  using assms
proof (induction rs arbitrary: st)
  case Nil
  then show ?case by (simp add: txPasses_def)
next
  case (Cons r rs)
  show ?case
  proof (cases "comDone st")
    case True
    then show ?thesis by simp
  next
    case False
    show ?thesis
    proof (cases "comTx_iteration r st")
      case (Leave s)
      with False show ?thesis by simp
    next
      case (Again s)
      have wf: "wellFormed (txBuffer s)"
        using comTx_iteration_wellFormed [OF Cons.prems(1), of r] Again by simp
      have "comDone s \<or> txPasses s \<le> length rs"
        using comTx_iteration_progress [OF Cons.prems(1) Again] Cons.prems(2) False by auto
      from Cons.IH [OF wf this] Again False show ?thesis by simp
    qed
  qed
qed

lemma rxPasses_le_budget: "rxPasses st \<le> rxBudget st"
  by (simp add: rxPasses_def rxBudget_def)

lemma txPasses_le_budget: "txPasses st \<le> txBudget st"
  by (simp add: txPasses_def txBudget_def)

lemma comRx_returns:
  assumes "wellFormed (rxBuffer st)" and "rxBudget st \<le> length (rxReplies env)"
  shows "\<exists>st' env'. comRx env st = Some (st', env')"
proof -
  define st0 where "st0 = st\<lparr>rxBuffer := (rxBuffer st)\<lparr>notFull := False\<rparr>\<rparr>"
  have wf: "wellFormed (rxBuffer st0)" using assms(1) by (simp add: st0_def wellFormed_def)
  have "rxPasses st0 = rxPasses st"
    by (simp add: st0_def rxPasses_def capacity_def occupancy_def)
  then have "rxPasses st0 \<le> length (rxReplies env)"
    using assms(2) rxPasses_le_budget [of st] by simp
  then obtain res where "comRx_loop (rxReplies env) st0 = Some res"
    using comRx_loop_returns [OF wf] by blast
  then show ?thesis
    by (cases res) (simp add: comRx_def ResetEvent_def Let_def st0_def)
qed

lemma comTx_returns:
  assumes "wellFormed (txBuffer st)" and "txBudget st \<le> length (txReplies env)"
  shows "\<exists>st' env'. comTx env st = Some (st', env')"
proof -
  define st0 where "st0 = st\<lparr>txBuffer := (txBuffer st)\<lparr>notEmpty := False\<rparr>\<rparr>"
  have wf: "wellFormed (txBuffer st0)" using assms(1) by (simp add: st0_def wellFormed_def)
  have "txPasses st0 = txPasses st"
    by (simp add: st0_def txPasses_def capacity_def occupancy_def)
  then have "txPasses st0 \<le> length (txReplies env)"
    using assms(2) txPasses_le_budget [of st] by simp
  then obtain res where "comTx_loop (txReplies env) st0 = Some res"
    using comTx_loop_returns [OF wf] by blast
  then show ?thesis
    by (cases res) (simp add: comTx_def ResetEvent_def Let_def st0_def)
qed

subsection \<open>Retry lines in the log\<close>

lemma retryLines_writeLog:
  "retryLines (writeLog es st)
     = retryLines st @ filter (\<lambda>e. e = rxRetryLine \<or> e = txRetryLine) es"
  by (simp add: retryLines_def)

lemma retryLines_update [simp]:
  "retryLines (st\<lparr>rxBuffer := a\<rparr>) = retryLines st"
  "retryLines (st\<lparr>txBuffer := a\<rparr>) = retryLines st"
  "retryLines (st\<lparr>comRxError := e\<rparr>) = retryLines st"
  "retryLines (st\<lparr>comTxError := e\<rparr>) = retryLines st"
  "retryLines (st\<lparr>comDone := b\<rparr>) = retryLines st"
  "retryLines (st\<lparr>comRxOverlapped_hEvent := b\<rparr>) = retryLines st"
  "retryLines (st\<lparr>comTxOverlapped_hEvent := b\<rparr>) = retryLines st"
  by (simp_all add: retryLines_def)

lemma no_retry_logInfo [simp]:
  "filter (\<lambda>e. e = rxRetryLine \<or> e = txRetryLine) (logInfo f args) = []"
  by (simp add: logInfo_def rxRetryLine_def txRetryLine_def INFO_def TRACE_def)

lemma no_retry_logDebug [simp]:
  "filter (\<lambda>e. e = rxRetryLine \<or> e = txRetryLine) (logDebug f args) = []"
  by (simp add: logDebug_def rxRetryLine_def txRetryLine_def DEBUG_def TRACE_def)

lemma no_retry_logTrace:
  "args \<noteq> [] \<Longrightarrow> filter (\<lambda>e. e = rxRetryLine \<or> e = txRetryLine) (logTrace f args) = []"
  by (simp add: logTrace_def rxRetryLine_def txRetryLine_def)

lemma no_retry_logError [simp]:
  "filter (\<lambda>e. e = rxRetryLine \<or> e = txRetryLine) (logError from err) = []"
  by (simp add: logError_def no_retry_logTrace)

lemma no_retry_logIOResult [simp]:
  "filter (\<lambda>e. e = rxRetryLine \<or> e = txRetryLine) (logIOResult from err n) = []"
  by (simp add: logIOResult_def no_retry_logTrace)

lemma no_retry_addData [simp]:
  "filter (\<lambda>e. e = rxRetryLine \<or> e = txRetryLine) (snd (addData n rb)) = []"
  by (simp add: addData_log rxRetryLine_def txRetryLine_def INFO_def TRACE_def)

lemma no_retry_removeData [simp]:
  "filter (\<lambda>e. e = rxRetryLine \<or> e = txRetryLine) (snd (removeData n rb)) = []"
  by (simp add: removeData_log rxRetryLine_def txRetryLine_def INFO_def TRACE_def)

lemma comRx_poll_retryLines:
  "retryLines (flowSession (comRx_poll r b st)) = retryLines st"
  by (simp add: comRx_poll_def Let_def retryLines_writeLog)

lemma comRx_iteration_retryLines:
  "retryLines (flowSession (comRx_iteration r st)) = retryLines st"
  by (simp add: comRx_iteration_flat Let_def comRx_poll_retryLines retryLines_writeLog)

lemma comRx_loop_retryLines:
  "comRx_loop rs st = Some (st', rs') \<Longrightarrow> retryLines st' = retryLines st"
proof (induction rs arbitrary: st)
  case Nil
  then show ?case by (simp split: if_splits)
next
  case (Cons r rs)
  show ?case
  proof (cases "comDone st")
    case True
    with Cons.prems show ?thesis by simp
  next
    case False
    show ?thesis
    proof (cases "comRx_iteration r st")
      case (Again s)
      with Cons.prems False have "comRx_loop rs s = Some (st', rs')" by simp
      from Cons.IH [OF this] comRx_iteration_retryLines [of r st] Again show ?thesis by simp
    next
      case (Leave s)
      with Cons.prems False have "s = st'" by simp
      with comRx_iteration_retryLines [of r st] Leave show ?thesis by simp
    qed
  qed
qed

lemma comRx_retryLines:
  assumes "comRx env st = Some (st', env')"
  shows "retryLines st' = retryLines st"
  using assms comRx_loop_retryLines
  by (fastforce simp: comRx_def ResetEvent_def Let_def split: option.splits)

lemma comTx_poll_retryLines:
  "retryLines (flowSession (comTx_poll r b st)) = retryLines st"
  by (simp add: comTx_poll_def Let_def retryLines_writeLog)

lemma comTx_iteration_retryLines:
  "retryLines (flowSession (comTx_iteration r st)) = retryLines st"
  by (simp add: comTx_iteration_flat Let_def comTx_poll_retryLines retryLines_writeLog)

lemma comTx_loop_retryLines:
  "comTx_loop rs st = Some (st', rs') \<Longrightarrow> retryLines st' = retryLines st"
proof (induction rs arbitrary: st)
  case Nil
  then show ?case by (simp split: if_splits)
next
  case (Cons r rs)
  show ?case
  proof (cases "comDone st")
    case True
    with Cons.prems show ?thesis by simp
  next
    case False
    show ?thesis
    proof (cases "comTx_iteration r st")
      case (Again s)
      with Cons.prems False have "comTx_loop rs s = Some (st', rs')" by simp
      from Cons.IH [OF this] comTx_iteration_retryLines [of r st] Again show ?thesis by simp
    next
      case (Leave s)
      with Cons.prems False have "s = st'" by simp
      with comTx_iteration_retryLines [of r st] Leave show ?thesis by simp
    qed
  qed
qed

lemma comTx_retryLines:
  assumes "comTx env st = Some (st', env')"
  shows "retryLines st' = retryLines st"
  using assms comTx_loop_retryLines
  by (fastforce simp: comTx_def ResetEvent_def Let_def split: option.splits)

lemma retry_lines_distinct: "rxRetryLine \<noteq> txRetryLine"
  by (simp add: rxRetryLine_def txRetryLine_def)

lemma retryLines_retry [simp]:
  "retryLines (writeLog (logTrace ''comRx retry'' []) st) = retryLines st @ [rxRetryLine]"
  "retryLines (writeLog (logTrace ''comTx retry'' []) st) = retryLines st @ [txRetryLine]"
  "retryLines (writeLog (logTrace ''WAIT_TIMEOUT'' []) st) = retryLines st"
  by (simp_all add: retryLines_writeLog logTrace_def logLevel_def rxRetryLine_def
      txRetryLine_def)

lemma zeroByteReceive_idle:
  assumes "zeroByteReceive st0 r"
  shows "comRx_iteration r st0 = Leave (flowSession (comRx_iteration r st0))"
    and "comRxError (flowSession (comRx_iteration r st0)) = ERROR_SUCCESS"
    and "rxBuffer (flowSession (comRx_iteration r st0)) = rxBuffer st0"
  using assms
  by (auto simp: zeroByteReceive_def comRx_iteration_flat comRx_poll_def Let_def)

lemma runThreadStep_retryLines: "retryLines (runThreadStep t st) = retryLines st"
proof (cases t)
  case (StdinRead r errno)
  have "retryLines s = retryLines st"
    if "stdinReader_iteration r errno st \<in> {Next s, Blocked s, Return c s}" for s c
    using that
    by (auto simp: stdinReader_iteration_def Let_def case_prod_beta retryLines_writeLog
        retryLines_def split: if_splits)
  then show ?thesis
    using StdinRead
    by (cases "stdinReader_iteration r errno st") (auto simp: retryLines_def)
next
  case (StdoutWrite r errno)
  have "retryLines s = retryLines st"
    if "stdoutWriter_iteration r errno st \<in> {Next s, Blocked s, Return c s}" for s c
    using that
    by (auto simp: stdoutWriter_iteration_def Let_def case_prod_beta retryLines_writeLog
        retryLines_def split: if_splits)
  then show ?thesis
    using StdoutWrite
    by (cases "stdoutWriter_iteration r errno st") (auto simp: retryLines_def)
qed

lemma runThreadSteps_retryLines: "retryLines (runThreadSteps ts st) = retryLines st"
  by (induction ts arbitrary: st) (simp_all add: runThreadStep_retryLines)

lemma main_iteration_WAIT_TIMEOUT:
  assumes "\<not> exitGracefully st" and "waited t = WAIT_TIMEOUT"
  shows "main_iteration t env st
       = map_option Continue (main_WAIT_TIMEOUT env (runThreadSteps (threadSteps t) st))"
  using assms by (simp add: main_iteration_def Let_def WAIT_TIMEOUT_def WAIT_OBJECT_0_def)

text \<open>The case \<^verbatim>\<open>WAIT_TIMEOUT\<close>, from the session in which the wait returns.\<close>

lemma main_WAIT_TIMEOUT_retries:
  assumes wf: "wellFormed (rxBuffer st)" "wellFormed (txBuffer st)"
    and replies: "rxBudget st \<le> length (rxReplies env)" "txBudget st \<le> length (txReplies env)"
  shows "\<exists>st' env'. main_WAIT_TIMEOUT env st = Some (st', env') \<and>
           retryLines st' = retryLines st
             @ (if occupancy (rxBuffer st) < capacity (rxBuffer st) \<and> comRxError st = ERROR_SUCCESS
                then [rxRetryLine] else [])
             @ (if 0 < occupancy (txBuffer st) \<and> comTxError st = ERROR_SUCCESS
                then [txRetryLine] else []) \<and>
           (\<forall>st0 r. zeroByteReceive st0 r \<and> comRx_iteration r st0 = Leave st \<and>
                     occupancy (rxBuffer st) < capacity (rxBuffer st)
                \<longrightarrow> count_list (retryLines st') rxRetryLine
                      = count_list (retryLines st) rxRetryLine + 1)"
proof -
  define rxCond where
    "rxCond \<longleftrightarrow> occupancy (rxBuffer st) < capacity (rxBuffer st) \<and> comRxError st = ERROR_SUCCESS"
  define txCond where
    "txCond \<longleftrightarrow> 0 < occupancy (txBuffer st) \<and> comTxError st = ERROR_SUCCESS"
  define st0 where "st0 = writeLog (logTrace ''WAIT_TIMEOUT'' []) st"
  have rx_iff: "hasSpace (rxBuffer st0) \<noteq> 0 \<and> comRxError st0 = ERROR_SUCCESS \<longleftrightarrow> rxCond"
    using hasSpace_zero_iff [OF wf(1)] occupancy_range(2) [OF wf(1)]
    by (auto simp: st0_def rxCond_def)
  \<comment> \<open>the receive retry\<close>
  obtain st1 env1 where
    step1: "(if hasSpace (rxBuffer st0) \<noteq> 0 \<and> comRxError st0 = ERROR_SUCCESS
             then comRx env (writeLog (logTrace ''comRx retry'' []) st0)
             else Some (st0, env)) = Some (st1, env1)"
    and lines1: "retryLines st1 = retryLines st @ (if rxCond then [rxRetryLine] else [])"
    and tx1: "txBuffer st1 = txBuffer st" "comTxError st1 = comTxError st"
      "txReplies env1 = txReplies env"
  proof (cases rxCond)
    case True
    define sr where "sr = writeLog (logTrace ''comRx retry'' []) st0"
    have "wellFormed (rxBuffer sr)" "rxBudget sr \<le> length (rxReplies env)"
      using wf(1) replies(1) by (simp_all add: sr_def st0_def rxBudget_def)
    from comRx_returns [OF this] obtain s e where run: "comRx env sr = Some (s, e)" by blast
    note fr = comRx_frame [OF run] and lines = comRx_retryLines [OF run]
    show ?thesis
    proof (rule that [of s e])
      show "(if hasSpace (rxBuffer st0) \<noteq> 0 \<and> comRxError st0 = ERROR_SUCCESS
             then comRx env (writeLog (logTrace ''comRx retry'' []) st0)
             else Some (st0, env)) = Some (s, e)"
        using True rx_iff run by (simp add: sr_def)
      show "retryLines s = retryLines st @ (if rxCond then [rxRetryLine] else [])"
        using True lines by (simp add: sr_def st0_def)
      show "txBuffer s = txBuffer st" "comTxError s = comTxError st"
        "txReplies e = txReplies env"
        using fr by (simp_all add: sr_def st0_def)
    qed
  next
    case False
    show ?thesis
    proof (rule that [of st0 env])
      show "(if hasSpace (rxBuffer st0) \<noteq> 0 \<and> comRxError st0 = ERROR_SUCCESS
             then comRx env (writeLog (logTrace ''comRx retry'' []) st0)
             else Some (st0, env)) = Some (st0, env)"
        using False rx_iff by (simp only: if_False)
      show "retryLines st0 = retryLines st @ (if rxCond then [rxRetryLine] else [])"
        using False by (simp add: st0_def)
      show "txBuffer st0 = txBuffer st" "comTxError st0 = comTxError st"
        "txReplies env = txReplies env"
        by (simp_all add: st0_def)
    qed
  qed
  have tx_iff: "hasData (txBuffer st1) \<noteq> 0 \<and> comTxError st1 = ERROR_SUCCESS \<longleftrightarrow> txCond"
    using hasData_zero_iff [OF wf(2)] occupancy_range(1) [OF wf(2)]
    by (auto simp: tx1 txCond_def)
  \<comment> \<open>the transmit retry\<close>
  obtain st2 env2 where
    step2: "(if hasData (txBuffer st1) \<noteq> 0 \<and> comTxError st1 = ERROR_SUCCESS
             then comTx env1 (writeLog (logTrace ''comTx retry'' []) st1)
             else Some (st1, env1)) = Some (st2, env2)"
    and lines2: "retryLines st2 = retryLines st1 @ (if txCond then [txRetryLine] else [])"
  proof (cases txCond)
    case True
    define sr where "sr = writeLog (logTrace ''comTx retry'' []) st1"
    have "wellFormed (txBuffer sr)" "txBudget sr \<le> length (txReplies env1)"
      using wf(2) replies(2) by (simp_all add: sr_def tx1 txBudget_def)
    from comTx_returns [OF this] obtain s e where run: "comTx env1 sr = Some (s, e)" by blast
    note lines = comTx_retryLines [OF run]
    show ?thesis
    proof (rule that [of s e])
      show "(if hasData (txBuffer st1) \<noteq> 0 \<and> comTxError st1 = ERROR_SUCCESS
             then comTx env1 (writeLog (logTrace ''comTx retry'' []) st1)
             else Some (st1, env1)) = Some (s, e)"
        using True tx_iff run by (simp add: sr_def)
      show "retryLines s = retryLines st1 @ (if txCond then [txRetryLine] else [])"
        using True lines by (simp add: sr_def)
    qed
  next
    case False
    show ?thesis
    proof (rule that [of st1 env1])
      show "(if hasData (txBuffer st1) \<noteq> 0 \<and> comTxError st1 = ERROR_SUCCESS
             then comTx env1 (writeLog (logTrace ''comTx retry'' []) st1)
             else Some (st1, env1)) = Some (st1, env1)"
        using False tx_iff by (simp only: if_False)
      show "retryLines st1 = retryLines st1 @ (if txCond then [txRetryLine] else [])"
        using False by simp
    qed
  qed
  have result: "main_WAIT_TIMEOUT env st = Some (st2, env2)"
    unfolding main_WAIT_TIMEOUT_def Let_def st0_def [symmetric]
    by (simp only: step1 option.case prod.case step2)
  have lines: "retryLines st2 = retryLines st @ (if rxCond then [rxRetryLine] else [])
      @ (if txCond then [txRetryLine] else [])"
    using lines1 lines2 by simp
  have zero: "count_list (retryLines st2) rxRetryLine = count_list (retryLines st) rxRetryLine + 1"
    if z: "zeroByteReceive s0 r" and leave: "comRx_iteration r s0 = Leave st"
      and room: "occupancy (rxBuffer st) < capacity (rxBuffer st)" for s0 r
  proof -
    have "comRxError st = ERROR_SUCCESS"
      using zeroByteReceive_idle(2) [OF z] leave by simp
    with room have rxCond by (simp add: rxCond_def)
    then show ?thesis
      using lines retry_lines_distinct by (simp add: retry_lines_distinct [symmetric])
  qed
  show ?thesis
    using result lines zero unfolding rxCond_def txCond_def by blast
qed

subsection \<open>Nothing reads the log\<close>

lemma withLog_fields [simp]:
  "rxBuffer (withLog L st) = rxBuffer st" "txBuffer (withLog L st) = txBuffer st"
  "comEventMask (withLog L st) = comEventMask st" "comEventError (withLog L st) = comEventError st"
  "comRxError (withLog L st) = comRxError st" "comTxError (withLog L st) = comTxError st"
  "comDone (withLog L st) = comDone st" "stdinDone (withLog L st) = stdinDone st"
  "stdoutDone (withLog L st) = stdoutDone st"
  "comEventOverlapped_hEvent (withLog L st) = comEventOverlapped_hEvent st"
  "comRxOverlapped_hEvent (withLog L st) = comRxOverlapped_hEvent st"
  "comTxOverlapped_hEvent (withLog L st) = comTxOverlapped_hEvent st"
  "exitCode (withLog L st) = exitCode st"
  "stdinReaderExit (withLog L st) = stdinReaderExit st"
  "stdoutWriterExit (withLog L st) = stdoutWriterExit st"
  "logFile (withLog L st) = L @ logFile st"
  by (simp_all add: withLog_def)

lemma withLog_updates [simp]:
  "(withLog L st)\<lparr>rxBuffer := a\<rparr> = withLog L (st\<lparr>rxBuffer := a\<rparr>)"
  "(withLog L st)\<lparr>txBuffer := a\<rparr> = withLog L (st\<lparr>txBuffer := a\<rparr>)"
  "(withLog L st)\<lparr>comEventMask := m\<rparr> = withLog L (st\<lparr>comEventMask := m\<rparr>)"
  "(withLog L st)\<lparr>comEventError := e\<rparr> = withLog L (st\<lparr>comEventError := e\<rparr>)"
  "(withLog L st)\<lparr>comRxError := e\<rparr> = withLog L (st\<lparr>comRxError := e\<rparr>)"
  "(withLog L st)\<lparr>comTxError := e\<rparr> = withLog L (st\<lparr>comTxError := e\<rparr>)"
  "(withLog L st)\<lparr>comDone := b\<rparr> = withLog L (st\<lparr>comDone := b\<rparr>)"
  "(withLog L st)\<lparr>stdinDone := b\<rparr> = withLog L (st\<lparr>stdinDone := b\<rparr>)"
  "(withLog L st)\<lparr>stdoutDone := b\<rparr> = withLog L (st\<lparr>stdoutDone := b\<rparr>)"
  "(withLog L st)\<lparr>comEventOverlapped_hEvent := b\<rparr> = withLog L (st\<lparr>comEventOverlapped_hEvent := b\<rparr>)"
  "(withLog L st)\<lparr>comRxOverlapped_hEvent := b\<rparr> = withLog L (st\<lparr>comRxOverlapped_hEvent := b\<rparr>)"
  "(withLog L st)\<lparr>comTxOverlapped_hEvent := b\<rparr> = withLog L (st\<lparr>comTxOverlapped_hEvent := b\<rparr>)"
  "(withLog L st)\<lparr>exitCode := c\<rparr> = withLog L (st\<lparr>exitCode := c\<rparr>)"
  "(withLog L st)\<lparr>stdinReaderExit := x\<rparr> = withLog L (st\<lparr>stdinReaderExit := x\<rparr>)"
  "(withLog L st)\<lparr>stdoutWriterExit := x\<rparr> = withLog L (st\<lparr>stdoutWriterExit := x\<rparr>)"
  by (simp_all add: withLog_def)

lemma writeLog_withLog [simp]: "writeLog es (withLog L st) = withLog L (writeLog es st)"
  by (simp add: withLog_def writeLog_def)

lemma comRx_poll_withLog:
  "comRx_poll r b (withLog L st) = withLog_loop L (comRx_poll r b st)"
  by (simp add: comRx_poll_def Let_def)

lemma comTx_poll_withLog:
  "comTx_poll r b (withLog L st) = withLog_loop L (comTx_poll r b st)"
  by (simp add: comTx_poll_def Let_def)

lemma comRx_iteration_withLog:
  "comRx_iteration r (withLog L st) = withLog_loop L (comRx_iteration r st)"
  by (simp add: comRx_iteration_flat Let_def comRx_poll_withLog)

lemma comTx_iteration_withLog:
  "comTx_iteration r (withLog L st) = withLog_loop L (comTx_iteration r st)"
  by (simp add: comTx_iteration_flat Let_def comTx_poll_withLog)

lemma comRx_loop_withLog:
  "comRx_loop rs (withLog L st) = map_option (\<lambda>(s, rs'). (withLog L s, rs')) (comRx_loop rs st)"
proof (induction rs arbitrary: st)
  case Nil
  show ?case by simp
next
  case (Cons r rs)
  show ?case
    by (cases "comRx_iteration r st") (simp_all add: comRx_iteration_withLog Cons.IH)
qed

lemma comTx_loop_withLog:
  "comTx_loop rs (withLog L st) = map_option (\<lambda>(s, rs'). (withLog L s, rs')) (comTx_loop rs st)"
proof (induction rs arbitrary: st)
  case Nil
  show ?case by simp
next
  case (Cons r rs)
  show ?case
    by (cases "comTx_iteration r st") (simp_all add: comTx_iteration_withLog Cons.IH)
qed

lemma comRx_withLog:
  "comRx env (withLog L st) = map_option (\<lambda>(s, e). (withLog L s, e)) (comRx env st)"
  by (simp add: comRx_def Let_def ResetEvent_def comRx_loop_withLog split: option.splits)

lemma comTx_withLog:
  "comTx env (withLog L st) = map_option (\<lambda>(s, e). (withLog L s, e)) (comTx env st)"
  by (simp add: comTx_def Let_def ResetEvent_def comTx_loop_withLog split: option.splits)

lemma comEvent_switches_withLog:
  "comEvent_switches r (withLog L st) = withLog_loop L (comEvent_switches r st)"
  unfolding comEvent_switches_def ResetEvent_def
  apply (cases "ioPending (comEventError st)"; cases "comEventError st = ERROR_SUCCESS";
      cases "ioPending (waitIssued r)"; cases "waitIssued r = ERROR_SUCCESS";
      cases "ioPending (waitPolled r)"; cases "waitPolled r = ERROR_SUCCESS")
  apply (simp_all add: Let_def case_prod_beta)
  done

lemma comEvent_loop_withLog:
  "comEvent_loop rs env (withLog L st)
     = map_option (\<lambda>(s, rs', e). (withLog L s, rs', e)) (comEvent_loop rs env st)"
proof (induction rs arbitrary: env st)
  case Nil
  show ?case by simp
next
  case (Cons r rs)
  show ?case
  proof (cases "comEvent_switches r st")
    case (Leave s)
    then show ?thesis by (simp add: comEvent_switches_withLog)
  next
    case (Again s)
    show ?thesis
      by (simp add: comEvent_switches_withLog Again comRx_withLog comTx_withLog Cons.IH
          split: option.splits)
  qed
qed

lemma comEvent_withLog:
  "comEvent env (withLog L st) = map_option (\<lambda>(s, e). (withLog L s, e)) (comEvent env st)"
  by (simp add: comEvent_def comEvent_loop_withLog split: option.splits)

lemma stdinReader_iteration_withLog:
  "stdinReader_iteration r errno (withLog L st)
     = withLog_thread L (stdinReader_iteration r errno st)"
  by (simp add: stdinReader_iteration_def Let_def case_prod_beta)

lemma stdoutWriter_iteration_withLog:
  "stdoutWriter_iteration r errno (withLog L st)
     = withLog_thread L (stdoutWriter_iteration r errno st)"
  by (simp add: stdoutWriter_iteration_def Let_def case_prod_beta)

lemma runThreadStep_withLog:
  "runThreadStep t (withLog L st) = withLog L (runThreadStep t st)"
proof (cases t)
  case (StdinRead r errno)
  then show ?thesis
    by (cases "stdinReader_iteration r errno st")
      (simp_all add: stdinReader_iteration_withLog)
next
  case (StdoutWrite r errno)
  then show ?thesis
    by (cases "stdoutWriter_iteration r errno st")
      (simp_all add: stdoutWriter_iteration_withLog)
qed

lemma runThreadSteps_withLog:
  "runThreadSteps ts (withLog L st) = withLog L (runThreadSteps ts st)"
  by (induction ts arbitrary: st) (simp_all add: runThreadStep_withLog)

lemma exitGracefully_withLog [simp]: "exitGracefully (withLog L st) = exitGracefully st"
  by (simp add: exitGracefully_def)

lemma main_WAIT_TIMEOUT_withLog:
  "main_WAIT_TIMEOUT env (withLog L st)
     = map_option (\<lambda>(s, e). (withLog L s, e)) (main_WAIT_TIMEOUT env st)"
  by (simp add: main_WAIT_TIMEOUT_def Let_def comRx_withLog comTx_withLog split: option.splits)

lemma map_option_Continue_withLog:
  "map_option Continue (map_option (\<lambda>(s, e). (withLog L s, e)) x)
     = map_option (withLog_main L) (map_option Continue x)"
  by (cases x) auto

lemma main_iteration_withLog:
  "main_iteration t env (withLog L st) = map_option (withLog_main L) (main_iteration t env st)"
  by (simp add: main_iteration_def Let_def runThreadSteps_withLog comEvent_withLog
      comRx_withLog comTx_withLog main_WAIT_TIMEOUT_withLog map_option_Continue_withLog)

lemma main_loop_withLog:
  "main_loop ts env (withLog L st)
     = map_option (\<lambda>(s, e). (withLog L s, e)) (main_loop ts env st)"
proof (induction ts arbitrary: env st)
  case Nil
  show ?case by simp
next
  case (Cons t ts)
  show ?case
  proof (cases "main_iteration t env st")
    case None
    then show ?thesis by (simp add: main_iteration_withLog)
  next
    case (Some flow)
    then show ?thesis
    proof (cases flow)
      case (Continue p)
      with Some show ?thesis
        by (cases p) (simp add: main_iteration_withLog Cons.IH)
    next
      case (ExitGracefully p)
      with Some show ?thesis by (cases p) (simp add: main_iteration_withLog)
    next
      case (BreakLoop p)
      with Some show ?thesis by (cases p) (simp add: main_iteration_withLog)
    qed
  qed
qed

lemma eraseLog_withLog [simp]: "eraseLog (withLog L st) = eraseLog st"
  by (simp add: eraseLog_def withLog_def)

lemma exitLine_withLog [simp]: "exitLine (withLog L st) = exitLine st"
  by (simp add: exitLine_def)

lemma afterLoop_withLog: "afterLoop (withLog L st) = apsnd (withLog L) (afterLoop st)"
  by (simp add: afterLoop_def Let_def)

lemma main_run:
  assumes "2 \<le> length (argv se)" and "2 < length (argv se) \<longrightarrow> fopenOk se"
    and "createFileError se = None"
  shows "main se ticks env
       = map_option (\<lambda>(s, e). apsnd (withLog (logDebug ''CreateFile(%s)'' [ArgS (argv se ! 1)]
                                               @ snd (setComm (comm se)))) (afterLoop s))
           (main_loop ticks env initialSession)"
proof -
  define L where "L = logDebug ''CreateFile(%s)'' [ArgS (argv se ! 1)] @ snd (setComm (comm se))"
  have start: "writeLog (snd (setComm (comm se)))
      (writeLog (logDebug ''CreateFile(%s)'' [ArgS (argv se ! 1)]) initialSession)
      = withLog L initialSession"
    by (simp add: L_def writeLog_def withLog_def initialSession_def)
  have "main se ticks env
      = (case main_loop ticks env (withLog L initialSession) of
           None \<Rightarrow> None | Some (st2, env') \<Rightarrow> Some (afterLoop st2))"
    using assms unfolding main_def Let_def start afterLoop_def
    by (auto simp: not_less split: option.splits)
  also have "\<dots> = map_option (\<lambda>(s, e). apsnd (withLog L) (afterLoop s))
      (main_loop ticks env initialSession)"
    by (simp add: main_loop_withLog afterLoop_withLog split: option.splits)
  finally show ?thesis by (simp only: L_def)
qed

lemma main_early:
  assumes "\<not> (2 \<le> length (argv se) \<and> (2 < length (argv se) \<longrightarrow> fopenOk se)
             \<and> createFileError se = None)"
  shows "main (se\<lparr>comm := ce\<rparr>) ticks env = main se ticks env"
  using assms by (auto simp: main_def Let_def split: option.splits)

text \<open>\<^verbatim>\<open>setComm\<close> returns a non-zero code exactly when one of its four calls fails.\<close>

lemma setComm_fails_iff:
  "fst (setComm ce) \<noteq> 0 \<longleftrightarrow>
     getCommState ce \<noteq> None \<or> setCommState ce \<noteq> None \<or> setCommTimeouts ce \<noteq> None
     \<or> setCommMask ce \<noteq> None"
  by (auto simp: setComm_def split: option.splits)

subsection \<open>The signals of a queue\<close>

lemma findSpace_events [simp]:
  "findSpace (rb\<lparr>notFull := a\<rparr>) = findSpace rb" "findSpace (rb\<lparr>notEmpty := b\<rparr>) = findSpace rb"
  "findData (rb\<lparr>notFull := a\<rparr>) = findData rb" "findData (rb\<lparr>notEmpty := b\<rparr>) = findData rb"
  by (simp_all add: findSpace_def findData_def)

lemma addData_events:
  assumes "0 < n"
  shows "notEmpty (fst (addData n rb))"
    and "notFull (fst (addData n rb)) \<longleftrightarrow> notFull rb \<and> hasSpace (fst (addData n rb)) \<noteq> 0"
  using assms by (simp_all add: addData_buffer Let_def hasSpace_def)

lemma removeData_events:
  assumes "0 < n"
  shows "notFull (fst (removeData n rb))"
    and "notEmpty (fst (removeData n rb)) \<longleftrightarrow> notEmpty rb \<and> hasData (fst (removeData n rb)) \<noteq> 0"
  using assms by (simp_all add: removeData_buffer Let_def hasData_def)

lemma addData_signalsConsistent:
  assumes wf: "wellFormed rb" and cap: "1 \<le> capacity rb" and sc: "signalsConsistent rb"
  shows "signalsConsistent (fst (addData n rb))"
proof (cases "0 < n")
  case False
  then show ?thesis using sc by (simp add: word_greater_zero_iff addData_zero)
next
  case True
  define rb' where "rb' = fst (addData n rb)"
  have wf': "wellFormed rb'" and cap': "capacity rb' = capacity rb"
    using wf by (simp_all add: rb'_def addData_wellFormed)
  have occ: "occupancy rb' = occupancy rb + min (uint n) (uint (findSpace rb))"
    using wf by (simp add: rb'_def addData_occupancy)
  have n: "0 < uint n" using True by (simp add: word_less_def)
  have grow: "occupancy rb \<le> occupancy rb'" using occ by simp
  have pos: "0 < occupancy rb'"
  proof (cases "findSpace rb = 0")
    case True
    then have "occupancy rb = capacity rb"
      using hasSpace_zero_iff [OF wf] by (simp add: hasSpace_def)
    with cap grow show ?thesis by simp
  next
    case False
    then have "0 < uint (findSpace rb)" by (simp add: uint_pos_iff)
    with n occ occupancy_range(1) [OF wf] show ?thesis by (simp add: min_def)
  qed
  have full: "hasSpace rb' \<noteq> 0 \<longleftrightarrow> occupancy rb' < capacity rb'"
    using hasSpace_zero_iff [OF wf'] occupancy_range(2) [OF wf'] by auto
  have "notFull rb' \<longleftrightarrow> occupancy rb' < capacity rb'"
    using addData_events(2) [OF True, of rb] sc grow full cap'
    by (auto simp: rb'_def signalsConsistent_def)
  moreover have "notEmpty rb'" using addData_events(1) [OF True] by (simp add: rb'_def)
  ultimately show ?thesis using pos by (simp add: signalsConsistent_def rb'_def)
qed

lemma removeData_signalsConsistent:
  assumes wf: "wellFormed rb" and cap: "1 \<le> capacity rb" and sc: "signalsConsistent rb"
  shows "signalsConsistent (fst (removeData n rb))"
proof (cases "0 < n")
  case False
  then show ?thesis using sc by (simp add: word_greater_zero_iff removeData_zero)
next
  case True
  define rb' where "rb' = fst (removeData n rb)"
  have wf': "wellFormed rb'" and cap': "capacity rb' = capacity rb"
    using wf by (simp_all add: rb'_def removeData_wellFormed)
  have occ: "occupancy rb' = occupancy rb - min (uint n) (uint (findData rb))"
    using wf by (simp add: rb'_def removeData_occupancy)
  have n: "0 < uint n" using True by (simp add: word_less_def)
  have shrink: "occupancy rb' \<le> occupancy rb" using occ by simp
  have room: "occupancy rb' < capacity rb'"
  proof (cases "findData rb = 0")
    case True
    then have "occupancy rb = 0"
      using hasData_zero_iff [OF wf] by (simp add: hasData_def)
    with cap shrink cap' show ?thesis by simp
  next
    case False
    then have "0 < uint (findData rb)" by (simp add: uint_pos_iff)
    with n occ occupancy_range(2) [OF wf] cap' show ?thesis by (simp add: min_def)
  qed
  have empty: "hasData rb' \<noteq> 0 \<longleftrightarrow> 0 < occupancy rb'"
    using hasData_zero_iff [OF wf'] occupancy_range(1) [OF wf'] by auto
  have "notEmpty rb' \<longleftrightarrow> 0 < occupancy rb'"
    using removeData_events(2) [OF True, of rb] sc shrink empty
    by (auto simp: rb'_def signalsConsistent_def)
  moreover have "notFull rb'" using removeData_events(1) [OF True] by (simp add: rb'_def)
  ultimately show ?thesis using room by (simp add: signalsConsistent_def rb'_def)
qed

subsection \<open>The test at the top of the loop of main\<close>

lemma exitGracefully_occupancy:
  assumes "wellFormed (rxBuffer st)" and "wellFormed (txBuffer st)"
  shows "exitGracefully st \<longleftrightarrow>
           (stdoutDone st \<or> occupancy (rxBuffer st) = 0) \<and>
           (comDone st \<or> (stdinDone st \<and> occupancy (txBuffer st) = 0))"
  by (simp add: exitGracefully_def hasData_zero_iff [OF assms(1)] hasData_zero_iff [OF assms(2)])

lemma main_iteration_graceful:
  "(\<exists>result. main_iteration t env st = Some (ExitGracefully result)) \<longleftrightarrow> exitGracefully st"
  by (auto simp: main_iteration_def Let_def)

section \<open>Claims about the coordinator\<close>

text \<open>
  Claim C1.  With both queues well formed, a pass through the loop of \<^verbatim>\<open>main\<close> leaves at
  the test at the top, before any wait, exactly when (\<^verbatim>\<open>stdoutDone\<close> or the receive queue is
  empty) and (\<^verbatim>\<open>comDone\<close> or (\<^verbatim>\<open>stdinDone\<close> and the transmit queue is empty)); and when that
  holds the loop returns at once with the session unchanged.
\<close>

theorem C1_termination_predicate:
  assumes "wellFormed (rxBuffer st)" and "wellFormed (txBuffer st)"
  shows "((\<exists>result. main_iteration t env st = Some (ExitGracefully result)) \<longleftrightarrow>
            (stdoutDone st \<or> occupancy (rxBuffer st) = 0) \<and>
            (comDone st \<or> (stdinDone st \<and> occupancy (txBuffer st) = 0))) \<and>
         ((stdoutDone st \<or> occupancy (rxBuffer st) = 0) \<and>
          (comDone st \<or> (stdinDone st \<and> occupancy (txBuffer st) = 0))
            \<longrightarrow> main_iteration t env st = Some (ExitGracefully (st, env)) \<and>
                main_loop (t # ts) env st = Some (st, env) \<and>
                main_loop [] env st = Some (st, env))"
proof -
  note eq = exitGracefully_occupancy [OF assms]
  have "exitGracefully st \<Longrightarrow> main_iteration t env st = Some (ExitGracefully (st, env))"
    by (simp add: main_iteration_def)
  then show ?thesis
    using main_iteration_graceful [of t env st] eq by auto
qed

text \<open>Claim C1 in the initial session, after and before the input has ended.\<close>

theorem C1_termination_predicate_witness:
  "wellFormed (rxBuffer (initialSession\<lparr>stdinDone := True\<rparr>)) \<and>
   wellFormed (txBuffer (initialSession\<lparr>stdinDone := True\<rparr>)) \<and>
   main_iteration (hd exampleTicks) quietEnv (initialSession\<lparr>stdinDone := True\<rparr>)
     = Some (ExitGracefully (initialSession\<lparr>stdinDone := True\<rparr>, quietEnv)) \<and>
   \<not> (\<exists>result. main_iteration (hd exampleTicks) quietEnv initialSession
                  = Some (ExitGracefully result))"
proof -
  have wf: "wellFormed (rxBuffer (initialSession\<lparr>stdinDone := True\<rparr>))"
    "wellFormed (txBuffer (initialSession\<lparr>stdinDone := True\<rparr>))"
    "wellFormed (rxBuffer initialSession)" "wellFormed (txBuffer initialSession)"
    by (simp_all add: initialSession_def newRingBuffer_wellFormed)
  have occ: "occupancy (rxBuffer initialSession) = 0" "occupancy (txBuffer initialSession) = 0"
    by (simp_all add: initialSession_def newRingBuffer_def occupancy_def)
  have flags: "\<not> comDone initialSession" "\<not> stdinDone initialSession"
    by (simp_all add: initialSession_def)
  show ?thesis
    using C1_termination_predicate [OF wf(1,2), of "hd exampleTicks" quietEnv "[]"]
      C1_termination_predicate [OF wf(3,4), of "hd exampleTicks" quietEnv "[]"]
      wf occ flags
    by simp
qed

text \<open>
  Claim C5, as amended.  On a well-formed queue of capacity at least 1 whose two signals
  agree with its occupancy, \<^verbatim>\<open>addData\<close> and \<^verbatim>\<open>removeData\<close> leave them in agreement:
  \<^verbatim>\<open>notEmpty\<close> is set iff the occupancy is greater than 0 and \<^verbatim>\<open>notFull\<close> iff it is less than
  the capacity.  (Each call is one step of the model, as it is one critical section of the
  source.)
\<close>

theorem C5_signals_preserved:
  assumes "wellFormed rb" and "1 \<le> capacity rb" and "signalsConsistent rb"
  shows "signalsConsistent (fst (addData n rb)) \<and> signalsConsistent (fst (removeData n rb))"
  using assms by (simp add: addData_signalsConsistent removeData_signalsConsistent)

text \<open>Claim C5, as amended, at a fresh queue of capacity 4 and \<open>n = 3\<close>.\<close>

theorem C5_signals_preserved_witness:
  "wellFormed (newRingBuffer 4) \<and> 1 \<le> capacity (newRingBuffer 4) \<and>
   signalsConsistent (newRingBuffer 4) \<and>
   signalsConsistent (fst (addData 3 (newRingBuffer 4))) \<and>
   notEmpty (fst (addData 3 (newRingBuffer 4))) \<and> notFull (fst (addData 3 (newRingBuffer 4)))"
proof -
  have h: "wellFormed (newRingBuffer 4)" "1 \<le> capacity (newRingBuffer 4)"
    "signalsConsistent (newRingBuffer 4)"
    by code_simp+
  have e: "notEmpty (fst (addData 3 (newRingBuffer 4)))" "notFull (fst (addData 3 (newRingBuffer 4)))"
    by code_simp+
  show ?thesis using C5_signals_preserved [OF h, of 3] h e by simp
qed

text \<open>
  Claim C5 as stated is not an invariant of the program: \<^verbatim>\<open>comRx\<close> resets \<^verbatim>\<open>notFull\<close> of the
  receive queue before it reads, and \<^verbatim>\<open>addData\<close> never sets it.  After \<^verbatim>\<open>comRx\<close> has received
  one byte into the empty queue the index has moved, the occupancy is 1 of 128, and
  \<^verbatim>\<open>notFull\<close> is reset.
\<close>

theorem C5_counterexample:
  "(case comRx (quietEnv\<lparr>rxReplies := [oneByteReply, zeroReply]\<rparr>) initialSession of
      None \<Rightarrow> False
    | Some (st', env') \<Rightarrow>
        spaceIndex (rxBuffer st') = 1 \<and> occupancy (rxBuffer st') = 1 \<and>
        capacity (rxBuffer st') = 128 \<and> \<not> notFull (rxBuffer st') \<and>
        \<not> signalsConsistent (rxBuffer st'))"
  by code_simp

text \<open>
  Claim C6, as amended.  Take a pass through the loop of \<^verbatim>\<open>main\<close> whose wait times out, and
  let \<open>s\<close> be the session when the wait returns.  The pass makes exactly one receive retry
  (one line \<^verbatim>\<open>comRx retry\<close> and one call of \<^verbatim>\<open>comRx\<close>) if the receive queue has space and the
  last receive completed successfully, that is \<^verbatim>\<open>comRxError\<close> is \<^verbatim>\<open>ERROR_SUCCESS\<close>, neither
  pending nor failed, and none otherwise; then exactly one transmit retry if the transmit
  queue has data and \<^verbatim>\<open>comTxError\<close> is \<^verbatim>\<open>ERROR_SUCCESS\<close>, and none otherwise.  In particular,
  when \<open>s\<close> is the session a zero-byte receive completion leaves behind, with room in the
  queue, the pass makes exactly one receive retry.  With enough replies from the device
  the pass ends and the loop goes round again.
\<close>

theorem C6_timeout_retries:
  assumes wf: "wellFormedSession st"
    and loop: "\<not> exitGracefully st" and timeout: "waited t = WAIT_TIMEOUT"
    and s: "s = runThreadSteps (threadSteps t) st"
    and replies: "rxBudget s \<le> length (rxReplies env)" "txBudget s \<le> length (txReplies env)"
  shows "\<exists>st' env'. main_iteration t env st = Some (Continue (st', env')) \<and>
           retryLines st' = retryLines st
             @ (if occupancy (rxBuffer s) < capacity (rxBuffer s) \<and> comRxError s = ERROR_SUCCESS
                then [rxRetryLine] else [])
             @ (if 0 < occupancy (txBuffer s) \<and> comTxError s = ERROR_SUCCESS
                then [txRetryLine] else []) \<and>
           (\<forall>st0 r. zeroByteReceive st0 r \<and> comRx_iteration r st0 = Leave s \<and>
                     occupancy (rxBuffer s) < capacity (rxBuffer s)
                \<longrightarrow> count_list (retryLines st') rxRetryLine
                      = count_list (retryLines st) rxRetryLine + 1)"
proof -
  have wfs: "wellFormed (rxBuffer s)" "wellFormed (txBuffer s)"
    using runThreadSteps_wellFormedSession [OF wf, of "threadSteps t"]
    by (simp_all add: s wellFormedSession_def)
  have lines: "retryLines s = retryLines st"
    by (simp add: s runThreadSteps_retryLines)
  have pass: "main_iteration t env st = map_option Continue (main_WAIT_TIMEOUT env s)"
    unfolding s by (rule main_iteration_WAIT_TIMEOUT [OF loop timeout])
  from main_WAIT_TIMEOUT_retries [OF wfs replies] obtain st' env' where
    run: "main_WAIT_TIMEOUT env s = Some (st', env')"
    and retries: "retryLines st' = retryLines s
             @ (if occupancy (rxBuffer s) < capacity (rxBuffer s) \<and> comRxError s = ERROR_SUCCESS
                then [rxRetryLine] else [])
             @ (if 0 < occupancy (txBuffer s) \<and> comTxError s = ERROR_SUCCESS
                then [txRetryLine] else [])"
    and zero: "\<forall>st0 r. zeroByteReceive st0 r \<and> comRx_iteration r st0 = Leave s \<and>
                     occupancy (rxBuffer s) < capacity (rxBuffer s)
                \<longrightarrow> count_list (retryLines st') rxRetryLine
                      = count_list (retryLines s) rxRetryLine + 1"
    by blast
  have "main_iteration t env st = Some (Continue (st', env'))"
    by (simp add: pass run)
  then show ?thesis
    using retries zero unfolding lines by blast
qed

text \<open>Claim C6, as amended, in the session left by a receive that completed with zero
  bytes.\<close>

theorem C6_timeout_retries_witness:
  "wellFormedSession afterZeroBytes \<and> \<not> exitGracefully afterZeroBytes \<and>
   waited timeoutTick = WAIT_TIMEOUT \<and>
   afterZeroBytes = runThreadSteps (threadSteps timeoutTick) afterZeroBytes \<and>
   rxBudget afterZeroBytes \<le> length (rxReplies quietEnv) \<and>
   txBudget afterZeroBytes \<le> length (txReplies quietEnv) \<and>
   zeroByteReceive initialSession zeroReply \<and>
   comRx_iteration zeroReply initialSession = Leave afterZeroBytes \<and>
   (\<exists>st' env'. main_iteration timeoutTick quietEnv afterZeroBytes = Some (Continue (st', env')) \<and>
      retryLines st' = [rxRetryLine] \<and> count_list (retryLines st') rxRetryLine = 1)"
proof -
  have h: "wellFormedSession afterZeroBytes" "\<not> exitGracefully afterZeroBytes"
    "waited timeoutTick = WAIT_TIMEOUT"
    "afterZeroBytes = runThreadSteps (threadSteps timeoutTick) afterZeroBytes"
    "rxBudget afterZeroBytes \<le> length (rxReplies quietEnv)"
    "txBudget afterZeroBytes \<le> length (txReplies quietEnv)"
    by code_simp+
  have z: "zeroByteReceive initialSession zeroReply"
    "comRx_iteration zeroReply initialSession = Leave afterZeroBytes"
    by code_simp+
  have c: "occupancy (rxBuffer afterZeroBytes) < capacity (rxBuffer afterZeroBytes)"
    "comRxError afterZeroBytes = ERROR_SUCCESS" "\<not> 0 < occupancy (txBuffer afterZeroBytes)"
    "retryLines afterZeroBytes = []"
    by code_simp+
  from C6_timeout_retries [OF h] obtain st' env' where
    run: "main_iteration timeoutTick quietEnv afterZeroBytes = Some (Continue (st', env'))"
    and lines: "retryLines st' = retryLines afterZeroBytes
             @ (if occupancy (rxBuffer afterZeroBytes) < capacity (rxBuffer afterZeroBytes)
                   \<and> comRxError afterZeroBytes = ERROR_SUCCESS
                then [rxRetryLine] else [])
             @ (if 0 < occupancy (txBuffer afterZeroBytes) \<and> comTxError afterZeroBytes = ERROR_SUCCESS
                then [txRetryLine] else [])"
    by blast
  have "retryLines st' = [rxRetryLine]" using lines c by simp
  then show ?thesis using h z run by simp
qed

text \<open>
  Claim C6 as stated fails once a receive has failed: after one byte has been received and
  the next \<^verbatim>\<open>ReadFile\<close> has failed with error 5, the receive queue has space and no receive is
  pending, the loop does not exit (the byte is still queued), and a timeout makes no
  receive retry.
\<close>

theorem C6_counterexample:
  "(case comRx (quietEnv\<lparr>rxReplies := [oneByteReply, deniedReply]\<rparr>) initialSession of
      None \<Rightarrow> False
    | Some (st, env) \<Rightarrow>
        comRxError st = 5 \<and> comDone st \<and> \<not> ioPending (comRxError st) \<and>
        occupancy (rxBuffer st) < capacity (rxBuffer st) \<and> hasSpace (rxBuffer st) \<noteq> 0 \<and>
        \<not> exitGracefully st \<and>
        (case main_iteration timeoutTick env st of
           Some (Continue (st', env')) \<Rightarrow> retryLines st' = [] \<and> rxReplies env' = rxReplies env
         | _ \<Rightarrow> False))"
  by code_simp

text \<open>
  Claim C8, as amended.  \<^verbatim>\<open>main\<close> waits on exactly five handles: the events of the device
  event wait, of the receive operation and of the transmit operation, the event
  \<^verbatim>\<open>notFull\<close> of the receive queue (the receive queue has space) and the event \<^verbatim>\<open>notEmpty\<close> of
  the transmit queue (the transmit queue has data); for any one of them, with a timeout of
  2000 ms.
\<close>

theorem C8_waitables:
  "lpHandles main_wait =
     [ComEventOverlapped_hEvent, ComRxOverlapped_hEvent, ComTxOverlapped_hEvent,
      RxBuffer_notFull, TxBuffer_notEmpty] \<and>
   nCount main_wait = 5 \<and> length (lpHandles main_wait) = 5 \<and> distinct (lpHandles main_wait) \<and>
   \<not> bWaitAll main_wait \<and> dwMilliseconds main_wait = 2000 \<and>
   signalled st RxBuffer_notFull = notFull (rxBuffer st) \<and>
   signalled st TxBuffer_notEmpty = notEmpty (txBuffer st)"
  by (simp add: main_wait_def waitables_def)

text \<open>Claim C8 as stated names the two other queue events, which are not waited on.\<close>

theorem C8_counterexample:
  "\<not> (set (lpHandles main_wait) =
        {ComEventOverlapped_hEvent, ComRxOverlapped_hEvent, ComTxOverlapped_hEvent,
         TxBuffer_notFull, RxBuffer_notEmpty}
      \<and> dwMilliseconds main_wait = 2000)"
  by (auto simp: main_wait_def waitables_def)

text \<open>
  Claim C10.  In every run in which \<^verbatim>\<open>setComm\<close> fails, \<^verbatim>\<open>main\<close> goes on exactly as in the run
  with the same inputs in which \<^verbatim>\<open>setComm\<close> succeeds: the exit status is the same, and so is
  the whole final session but for the lines of the log.
\<close>

theorem C10_setComm_ignored:
  assumes "fst (setComm (comm se)) \<noteq> 0"
  shows "map_option fst (main se ticks env)
           = map_option fst (main (se\<lparr>comm := commOk\<rparr>) ticks env) \<and>
         map_option (apsnd eraseLog) (main se ticks env)
           = map_option (apsnd eraseLog) (main (se\<lparr>comm := commOk\<rparr>) ticks env)"
proof (cases "2 \<le> length (argv se) \<and> (2 < length (argv se) \<longrightarrow> fopenOk se)
             \<and> createFileError se = None")
  case True
  then have a: "2 \<le> length (argv se)" "2 < length (argv se) \<longrightarrow> fopenOk se"
    "createFileError se = None" by simp_all
  have b: "2 \<le> length (argv (se\<lparr>comm := commOk\<rparr>))"
    "2 < length (argv (se\<lparr>comm := commOk\<rparr>)) \<longrightarrow> fopenOk (se\<lparr>comm := commOk\<rparr>)"
    "createFileError (se\<lparr>comm := commOk\<rparr>) = None" using a by simp_all
  show ?thesis
    unfolding main_run [OF a] main_run [OF b]
    by (cases "main_loop ticks env initialSession")
      (auto simp: apsnd_def map_prod_def split: prod.splits)
next
  case False
  then show ?thesis by (simp only: main_early [OF False])
qed

text \<open>Claim C10 in a run in which \<^verbatim>\<open>GetCommState\<close> fails and the exit status is 0.\<close>

theorem C10_setComm_ignored_witness:
  "fst (setComm (comm exampleStart)) \<noteq> 0 \<and>
   map_option fst (main exampleStart exampleTicks quietEnv) = Some 0 \<and>
   map_option fst (main (exampleStart\<lparr>comm := commOk\<rparr>) exampleTicks quietEnv) = Some 0"
proof -
  have h: "fst (setComm (comm exampleStart)) \<noteq> 0" by code_simp
  have r: "map_option fst (main exampleStart exampleTicks quietEnv) = Some 0" by code_simp
  show ?thesis using C10_setComm_ignored [OF h, of exampleTicks quietEnv] h r by simp
qed

end
